theory Spec2Isabelle
  imports Complex_Main "HOL-Library.Multiset"
begin

section \<open>Data model (wordle\_types.h)\<close>

text \<open>
  A dictionary entry is the struct \<open>dictionary_entry_t\<close>. The word is the content of the
  NUL-terminated buffer \<open>char word[6]\<close>. A \<open>double\<close> is the real number it stands for (no
  NaN, no infinity); where the program decides by the result of double arithmetic, in the rank
  tie-break, the rounding of that operation is written out (\<open>double_sub\<close> below). An \<open>int\<close> is
  an integer; the one \<open>int\<close> operation that can leave the 32-bit range on a value the claims
  speak of, \<open>MAX_GUESSES - turn\<close>, has its wrap-around written out (\<open>int32_wrap\<close> below).
\<close>

abbreviation WORDLE_WORD_LENGTH :: nat where
  "WORDLE_WORD_LENGTH \<equiv> 5"

record dictionary_entry =
  word :: string
  entropy :: real
  frequency_rank :: int
  noun_type :: char
  verb_type :: char
  contains_duplicate_letters :: bool
  is_eliminated :: bool

text \<open>
  The expression \<open>c - 'A'\<close> that the source uses as an index into its 26-element tables.
\<close>

definition letter_index :: "char \<Rightarrow> int" where
  "letter_index c = of_char c - of_char (CHR ''A'')"

text \<open>
  Words the program is specified for: five upper-case letters. For such words every table
  index \<open>letter_index c\<close> lies in \<open>0..25\<close>. For other words the source indexes its tables
  out of bounds, which is undefined behaviour in C and is not described by the model (there, a
  list update out of range leaves the list as it is).
\<close>

definition is_upper_letter :: "char \<Rightarrow> bool" where
  "is_upper_letter c = (0 \<le> letter_index c \<and> letter_index c < 26)"

definition valid_word :: "string \<Rightarrow> bool" where
  "valid_word w = (length w = WORDLE_WORD_LENGTH \<and> list_all is_upper_letter w)"

subsection \<open>Machine arithmetic\<close>

text \<open>
  A 32-bit \<open>int\<close> holds the integers from \<open>-2\<^sup>3\<^sup>1\<close> to \<open>2\<^sup>3\<^sup>1 - 1\<close>. Signed overflow is
  undefined in C; \<open>int32_wrap\<close> is the two's-complement result that the usual compilers
  produce.
\<close>

definition is_int32 :: "int \<Rightarrow> bool" where
  "is_int32 x = (- 2147483648 \<le> x \<and> x \<le> 2147483647)"

definition int32_wrap :: "int \<Rightarrow> int" where
  "int32_wrap x = (x + 2147483648) mod 4294967296 - 2147483648"

text \<open>
  IEEE 754 binary64 arithmetic: the result of an operation on two finite doubles is the exact
  result rounded to the nearest double, ties to the even significand. \<open>binade x\<close> is the
  exponent of the binade of \<open>x\<close> (at least \<open>-1022\<close>, where the subnormal numbers begin), so the
  doubles near \<open>x\<close> are the multiples of \<open>2 powr (binade x - 52)\<close>. A result beyond the largest
  double, where the hardware gives an infinity, is here a real number of the same sign beyond
  every double; it compares with a finite double as the infinity does.
\<close>

definition binade :: "real \<Rightarrow> int" where
  "binade x = max \<lfloor>log 2 \<bar>x\<bar>\<rfloor> (- 1022)"

definition round_half_even :: "real \<Rightarrow> int" where
  "round_half_even q =
     (let f = \<lfloor>q\<rfloor>; r = q - real_of_int f in
      if r < 1 / 2 then f
      else if r > 1 / 2 then f + 1
      else if even f then f else f + 1)"

definition round_to_double :: "real \<Rightarrow> real" where
  "round_to_double x =
     (if x = 0 then 0
      else (let ulp = 2 powr real_of_int (binade x - 52)
            in real_of_int (round_half_even (x / ulp)) * ulp))"

definition double_sub :: "real \<Rightarrow> real \<Rightarrow> real" where
  "double_sub a b = round_to_double (a - b)"

section \<open>Feedback codec (entropy\_calculator.cpp, solver\_logic.cpp)\<close>

text \<open>
  \<open>get_feedback_pattern\<close>: the state of both loops is the pair of \<open>result_pattern\<close> and
  \<open>answer_char_counts\<close>; each loop body is one step function, run for \<open>i = 0..4\<close>.
\<close>

definition green_pass_step :: "string \<Rightarrow> string \<Rightarrow> nat \<Rightarrow> string \<times> int list \<Rightarrow> string \<times> int list" where
  "green_pass_step guess answer i st =
     (case st of (result_pattern, answer_char_counts) \<Rightarrow>
        if guess ! i = answer ! i
        then (result_pattern[i := CHR ''G''], answer_char_counts)
        else (result_pattern,
              answer_char_counts[nat (letter_index (answer ! i)) :=
                 answer_char_counts ! nat (letter_index (answer ! i)) + 1]))"

definition yellow_pass_step :: "string \<Rightarrow> nat \<Rightarrow> string \<times> int list \<Rightarrow> string \<times> int list" where
  "yellow_pass_step guess i st =
     (case st of (result_pattern, answer_char_counts) \<Rightarrow>
        if result_pattern ! i \<noteq> CHR ''G''
        then (let k = nat (letter_index (guess ! i)) in
              if answer_char_counts ! k > 0
              then (result_pattern[i := CHR ''Y''], answer_char_counts[k := answer_char_counts ! k - 1])
              else (result_pattern, answer_char_counts))
        else (result_pattern, answer_char_counts))"

definition get_feedback_pattern :: "string \<Rightarrow> string \<Rightarrow> string" where
  "get_feedback_pattern guess answer =
     fst (fold (yellow_pass_step guess) [0..<WORDLE_WORD_LENGTH]
            (fold (green_pass_step guess answer) [0..<WORDLE_WORD_LENGTH]
               (replicate WORDLE_WORD_LENGTH (CHR ''B''), replicate 26 0)))"

text \<open>
  \<open>compute_feedback_index\<close>: the same two passes over an \<open>int states[5]\<close> array
  (0 = Black, 1 = Yellow, 2 = Green), then the base-3 encoding loop with its running
  \<open>multiplier\<close>.
\<close>

definition index_green_step :: "string \<Rightarrow> string \<Rightarrow> nat \<Rightarrow> int list \<times> int list \<Rightarrow> int list \<times> int list" where
  "index_green_step guess answer i st =
     (case st of (states, answer_char_counts) \<Rightarrow>
        if guess ! i = answer ! i
        then (states[i := 2], answer_char_counts)
        else (states,
              answer_char_counts[nat (letter_index (answer ! i)) :=
                 answer_char_counts ! nat (letter_index (answer ! i)) + 1]))"

definition index_yellow_step :: "string \<Rightarrow> nat \<Rightarrow> int list \<times> int list \<Rightarrow> int list \<times> int list" where
  "index_yellow_step guess i st =
     (case st of (states, answer_char_counts) \<Rightarrow>
        if states ! i \<noteq> 2
        then (let k = nat (letter_index (guess ! i)) in
              if answer_char_counts ! k > 0
              then (states[i := 1], answer_char_counts[k := answer_char_counts ! k - 1])
              else (states, answer_char_counts))
        else (states, answer_char_counts))"

definition encode_step :: "int list \<Rightarrow> nat \<Rightarrow> int \<times> int \<Rightarrow> int \<times> int" where
  "encode_step states i st =
     (case st of (index, multiplier) \<Rightarrow> (index + states ! i * multiplier, multiplier * 3))"

definition compute_feedback_index :: "string \<Rightarrow> string \<Rightarrow> int" where
  "compute_feedback_index guess answer =
     (let states = fst (fold (index_yellow_step guess) [0..<5]
                          (fold (index_green_step guess answer) [0..<5]
                             (replicate 5 0, replicate 26 0)))
      in fst (fold (encode_step states) [0..<5] (0, 1)))"

text \<open>
  \<open>lookahead_feedback_index\<close> in solver\_logic.cpp is a second copy of the same three loops.
\<close>

definition lookahead_feedback_index :: "string \<Rightarrow> string \<Rightarrow> int" where
  "lookahead_feedback_index guess answer =
     (let states = fst (fold (index_yellow_step guess) [0..<5]
                          (fold (index_green_step guess answer) [0..<5]
                             (replicate 5 0, replicate 26 0)))
      in fst (fold (encode_step states) [0..<5] (0, 1)))"

subsection \<open>Notions for the properties of the codec\<close>

text \<open>
  The colour digits of the encoding, the two counts compared by the duplicate-letter rule, and
  the loop invariant of the second pass (\<open>yellow_inv\<close>) with the relation between the character
  version and the integer version of the two passes (\<open>codec_rel\<close>).
\<close>

definition color_code :: "char \<Rightarrow> int" where
  "color_code c = (if c = CHR ''G'' then 2 else if c = CHR ''Y'' then 1 else 0)"

definition green_pass :: "string \<Rightarrow> string \<Rightarrow> string \<times> int list" where
  "green_pass guess answer =
     fold (green_pass_step guess answer) [0..<5] (replicate 5 (CHR ''B''), replicate 26 0)"

definition unmatched :: "string \<Rightarrow> string \<Rightarrow> nat \<Rightarrow> int" where
  "unmatched g a k = int (length (filter (\<lambda>i. g ! i \<noteq> a ! i \<and> nat (letter_index (a ! i)) = k) [0..<5]))"

definition yellows :: "string \<Rightarrow> string \<Rightarrow> nat \<Rightarrow> nat \<Rightarrow> int" where
  "yellows g pat n k = int (length (filter (\<lambda>i. pat ! i = CHR ''Y'' \<and> nat (letter_index (g ! i)) = k) [0..<n]))"

definition yellow_inv :: "string \<Rightarrow> string \<Rightarrow> nat \<Rightarrow> string \<times> int list \<Rightarrow> bool" where
  "yellow_inv g a n st =
     (case st of (pat, cnt) \<Rightarrow>
        length pat = 5 \<and> length cnt = 26 \<and>
        (\<forall>i<5. (pat ! i = CHR ''G'') = (g ! i = a ! i)) \<and>
        (\<forall>i<5. pat ! i = CHR ''G'' \<or> pat ! i = CHR ''Y'' \<or> pat ! i = CHR ''B'') \<and>
        (\<forall>i<5. n \<le> i \<longrightarrow> pat ! i \<noteq> CHR ''Y'') \<and>
        (\<forall>k<26. 0 \<le> cnt ! k \<and> cnt ! k + yellows g pat n k = unmatched g a k))"

definition yellow_count :: "string \<Rightarrow> string \<Rightarrow> char \<Rightarrow> nat" where
  "yellow_count pat guess c = length (filter (\<lambda>i. pat ! i = CHR ''Y'' \<and> guess ! i = c) [0..<5])"

definition unmatched_count :: "string \<Rightarrow> string \<Rightarrow> char \<Rightarrow> nat" where
  "unmatched_count pat answer c = length (filter (\<lambda>i. answer ! i = c \<and> pat ! i \<noteq> CHR ''G'') [0..<5])"

definition codec_rel :: "string \<times> int list \<Rightarrow> int list \<times> int list \<Rightarrow> bool" where
  "codec_rel s t = (length (fst s) = 5 \<and> fst t = map color_code (fst s) \<and> snd t = snd s)"

section \<open>Dictionary filter (solver\_logic.cpp)\<close>

text \<open>
  \<open>filter_dictionary_by_constraints\<close>: one loop over the first \<open>count\<close> entries of the array (the parameter is
  called \<open>dict_count\<close> here).
  An eliminated entry is skipped (\<open>continue\<close>); otherwise the entry's hypothetical pattern is
  compared with \<open>result_pattern\<close> by \<open>strcmp\<close>, which is equality of the two strings.
\<close>

definition filter_step :: "string \<Rightarrow> string \<Rightarrow> nat \<Rightarrow> dictionary_entry list \<Rightarrow> dictionary_entry list" where
  "filter_step guess result_pattern i p_dictionary =
     (let pEntry = p_dictionary ! i in
      if is_eliminated pEntry then p_dictionary
      else (let hypothetical_pattern = get_feedback_pattern guess (word pEntry) in
            if hypothetical_pattern \<noteq> result_pattern
            then p_dictionary[i := pEntry\<lparr>is_eliminated := True\<rparr>]
            else p_dictionary))"

definition filter_dictionary_by_constraints ::
  "dictionary_entry list \<Rightarrow> int \<Rightarrow> string \<Rightarrow> string \<Rightarrow> dictionary_entry list" where
  "filter_dictionary_by_constraints p_dictionary dict_count guess result_pattern =
     fold (filter_step guess result_pattern) [0..<nat dict_count] p_dictionary"

text \<open>
  A pool the filter is specified for: \<open>dict_count\<close> entries are present and each holds a word of five
  upper-case letters.
\<close>

definition valid_pool :: "dictionary_entry list \<Rightarrow> int \<Rightarrow> bool" where
  "valid_pool p_dictionary dict_count =
     (0 \<le> dict_count \<and> nat dict_count \<le> length p_dictionary \<and>
      list_all (\<lambda>e. valid_word (word e)) (take (nat dict_count) p_dictionary))"

subsection \<open>Sample entries\<close>

definition mk_entry :: "string \<Rightarrow> real \<Rightarrow> bool \<Rightarrow> dictionary_entry" where
  "mk_entry w h e = \<lparr>word = w, entropy = h, frequency_rank = 50, noun_type = CHR ''S'',
     verb_type = CHR ''N'', contains_duplicate_letters = False, is_eliminated = e\<rparr>"

definition sample_pool :: "dictionary_entry list" where
  "sample_pool = [mk_entry ''TRACE'' 1 False, mk_entry ''ABIDE'' 2 False, mk_entry ''GRACE'' 3 True]"

section \<open>Entropy engine (entropy\_calculator.cpp)\<close>

abbreviation MAX_PATTERNS :: nat where
  "MAX_PATTERNS \<equiv> 243"

definition LOG2_E :: real where
  "LOG2_E = 1.44269504089"

text \<open>
  \<open>calculate_entropy_internal\<close>: the first loop tallies the pattern index of the guess against
  each of the first \<open>numValidAnswers\<close> answers in \<open>int counts[243]\<close>; the second loop sums
  \<open>- p * log p\<close> over the non-empty buckets. The array of entry pointers \<open>ppValidAnswers\<close> is
  the list of the entries pointed to.
\<close>

definition tally_step :: "string \<Rightarrow> dictionary_entry list \<Rightarrow> nat \<Rightarrow> int list \<Rightarrow> int list" where
  "tally_step guess ppValidAnswers i counts =
     (let pattern_idx = nat (compute_feedback_index guess (word (ppValidAnswers ! i)))
      in counts[pattern_idx := counts ! pattern_idx + 1])"

definition entropy_step :: "int list \<Rightarrow> real \<Rightarrow> nat \<Rightarrow> real \<Rightarrow> real" where
  "entropy_step counts inv_num i entropy_acc =
     (if counts ! i > 0
      then (let p = real_of_int (counts ! i) * inv_num in entropy_acc - p * ln p)
      else entropy_acc)"

definition calculate_entropy_internal :: "string \<Rightarrow> dictionary_entry list \<Rightarrow> int \<Rightarrow> real" where
  "calculate_entropy_internal guess ppValidAnswers numValidAnswers =
     (if numValidAnswers \<le> 1 then 0
      else (let counts = fold (tally_step guess ppValidAnswers) [0..<nat numValidAnswers]
                           (replicate MAX_PATTERNS 0);
                inv_num = 1 / real_of_int numValidAnswers;
                entropy_acc = fold (entropy_step counts inv_num) [0..<MAX_PATTERNS] 0
            in entropy_acc * LOG2_E))"

text \<open>
  \<open>calculate_entropy_on_dictionary\<close>. The temporary array \<open>ppValid\<close> holds pointers into
  \<open>pDictionary\<close>; it is modelled as the list of the indices pointed to, and dereferenced
  against the dictionary as it is when \<open>calculate_entropy_internal\<close> is called, so that the
  writes to the \<open>entropy\<close> fields are seen through it. The flag \<open>malloc_ok\<close> says whether
  \<open>malloc\<close> returned a block. The OpenMP loop has independent iterations (iteration \<open>i\<close> writes
  only \<open>pDictionary[i].entropy\<close>, and reads only words and elimination flags) and is run here
  in index order.
\<close>

definition count_valid_step :: "dictionary_entry list \<Rightarrow> nat \<Rightarrow> int \<Rightarrow> int" where
  "count_valid_step pDictionary i validCount =
     (if \<not> is_eliminated (pDictionary ! i) then validCount + 1 else validCount)"

definition collect_valid_step :: "dictionary_entry list \<Rightarrow> nat \<Rightarrow> nat list \<Rightarrow> nat list" where
  "collect_valid_step pDictionary i ppValid =
     (if \<not> is_eliminated (pDictionary ! i) then ppValid @ [i] else ppValid)"

definition recompute_step :: "nat list \<Rightarrow> int \<Rightarrow> nat \<Rightarrow> dictionary_entry list \<Rightarrow> dictionary_entry list" where
  "recompute_step ppValid validCount i pDictionary =
     (if is_eliminated (pDictionary ! i)
      then pDictionary[i := (pDictionary ! i)\<lparr>entropy := 0\<rparr>]
      else pDictionary[i := (pDictionary ! i)\<lparr>entropy :=
             calculate_entropy_internal (word (pDictionary ! i))
               (map (\<lambda>j. pDictionary ! j) ppValid) validCount\<rparr>])"

definition calculate_entropy_on_dictionary ::
  "bool \<Rightarrow> dictionary_entry list \<Rightarrow> int \<Rightarrow> dictionary_entry list" where
  "calculate_entropy_on_dictionary malloc_ok pDictionary dictionaryCount =
     (let validCount = fold (count_valid_step pDictionary) [0..<nat dictionaryCount] 0 in
      if validCount = 0 then pDictionary
      else if \<not> malloc_ok then pDictionary
      else (let ppValid = fold (collect_valid_step pDictionary) [0..<nat dictionaryCount] []
            in fold (recompute_step ppValid validCount) [0..<nat dictionaryCount] pDictionary))"

subsection \<open>Notions for the properties of the entropy engine\<close>

text \<open>
  \<open>bump\<close> is the histogram increment \<open>counts[k]++\<close>; \<open>recomputed\<close> is the dictionary after
  \<open>m\<close> iterations of the recomputation loop; \<open>valid_entries\<close> is the list of the non-eliminated
  entries among the first \<open>n\<close>.
\<close>

definition bump :: "nat \<Rightarrow> int list \<Rightarrow> int list" where
  "bump k counts = counts[k := counts ! k + 1]"

definition pattern_of :: "string \<Rightarrow> dictionary_entry \<Rightarrow> nat" where
  "pattern_of guess e = nat (compute_feedback_index guess (word e))"

definition entry_a :: dictionary_entry where "entry_a = mk_entry ''TRACE'' 1 False"

definition entry_b :: dictionary_entry where "entry_b = mk_entry ''ABIDE'' 2 False"

definition recomputed :: "dictionary_entry list \<Rightarrow> nat list \<Rightarrow> int \<Rightarrow> nat \<Rightarrow> nat \<Rightarrow> dictionary_entry" where
  "recomputed p pv vc m i =
     (if i < m
      then (p ! i)\<lparr>entropy := (if is_eliminated (p ! i) then 0
              else calculate_entropy_internal (word (p ! i)) (map (\<lambda>j. p ! j) pv) vc)\<rparr>
      else p ! i)"

definition valid_entries :: "dictionary_entry list \<Rightarrow> int \<Rightarrow> dictionary_entry list" where
  "valid_entries pool n = filter (\<lambda>e. \<not> is_eliminated e) (take (nat n) pool)"

section \<open>Comparators (comparators.cpp)\<close>

text \<open>
  Each helper returns an \<open>int\<close> whose sign orders its two arguments, as \<open>qsort\<close> expects.
  \<open>noun_type_diff\<close> and \<open>verb_type_diff\<close> search a four-element preference table; a tag that
  is not in the table keeps the initial position 4.
\<close>

definition noun_order :: "char list" where
  "noun_order = [CHR ''R'', CHR ''S'', CHR ''N'', CHR ''P'']"

definition verb_order :: "char list" where
  "verb_order = [CHR ''N'', CHR ''P'', CHR ''S'', CHR ''T'']"

definition position_step :: "char list \<Rightarrow> char \<Rightarrow> char \<Rightarrow> nat \<Rightarrow> int \<times> int \<Rightarrow> int \<times> int" where
  "position_step order_tab t1 t2 i st =
     (case st of (posA, posB) \<Rightarrow>
        (if t1 = order_tab ! i then int i else posA,
         if t2 = order_tab ! i then int i else posB))"

definition noun_type_diff :: "dictionary_entry \<Rightarrow> dictionary_entry \<Rightarrow> int" where
  "noun_type_diff entry1 entry2 =
     (case fold (position_step noun_order (noun_type entry1) (noun_type entry2)) [0..<4] (4, 4) of
        (posA, posB) \<Rightarrow> posA - posB)"

definition verb_type_diff :: "dictionary_entry \<Rightarrow> dictionary_entry \<Rightarrow> int" where
  "verb_type_diff entry1 entry2 =
     (case fold (position_step verb_order (verb_type entry1) (verb_type entry2)) [0..<4] (4, 4) of
        (posA, posB) \<Rightarrow> posA - posB)"

definition entropy_diff :: "dictionary_entry \<Rightarrow> dictionary_entry \<Rightarrow> int" where
  "entropy_diff entry1 entry2 =
     (if entropy entry1 < entropy entry2 then 1
      else if entropy entry1 > entropy entry2 then - 1
      else 0)"

definition dup_diff :: "dictionary_entry \<Rightarrow> dictionary_entry \<Rightarrow> int" where
  "dup_diff entry1 entry2 =
     (if contains_duplicate_letters entry1 = False \<and> contains_duplicate_letters entry2 = True then - 1
      else if contains_duplicate_letters entry2 = False \<and> contains_duplicate_letters entry1 = True then 1
      else 0)"

definition rank_diff :: "dictionary_entry \<Rightarrow> dictionary_entry \<Rightarrow> int" where
  "rank_diff entry1 entry2 =
     (if frequency_rank entry1 < frequency_rank entry2 then 1
      else if frequency_rank entry1 > frequency_rank entry2 then - 1
      else 0)"

definition eliminated_diff :: "dictionary_entry \<Rightarrow> dictionary_entry \<Rightarrow> int" where
  "eliminated_diff entry1 entry2 =
     (if is_eliminated entry1 \<and> \<not> is_eliminated entry2 then 1
      else if \<not> is_eliminated entry1 \<and> is_eliminated entry2 then - 1
      else 0)"

text \<open>
  The C library's \<open>strncmp\<close>: the first \<open>n\<close> bytes are compared as unsigned characters, and
  the comparison stops after a NUL. The end of the list stands for the terminating NUL. The
  value returned for different strings is the difference of the first two bytes that differ (the
  standard fixes only its sign).
\<close>

definition byte_at_head :: "string \<Rightarrow> int" where
  "byte_at_head s = (case s of [] \<Rightarrow> 0 | c # _ \<Rightarrow> of_char c)"

fun strncmp :: "string \<Rightarrow> string \<Rightarrow> nat \<Rightarrow> int" where
  "strncmp s1 s2 0 = 0"
| "strncmp s1 s2 (Suc n) =
     (if byte_at_head s1 \<noteq> byte_at_head s2 then byte_at_head s1 - byte_at_head s2
      else if byte_at_head s1 = 0 then 0
      else strncmp (tl s1) (tl s2) n)"

definition compare_with_entropy_tie_breaker :: "dictionary_entry \<Rightarrow> dictionary_entry \<Rightarrow> int" where
  "compare_with_entropy_tie_breaker entry1 entry2 =
     (let result = dup_diff entry1 entry2 in
      if result \<noteq> 0 then result
      else (let result = noun_type_diff entry1 entry2 in
      if result \<noteq> 0 then result
      else (let result = verb_type_diff entry1 entry2 in
      if result \<noteq> 0 then result
      else (let result = rank_diff entry1 entry2 in
      if result \<noteq> 0 then result
      else strncmp (word entry1) (word entry2) WORDLE_WORD_LENGTH))))"

definition compare_dictionary_entries_by_entropy_desc :: "dictionary_entry \<Rightarrow> dictionary_entry \<Rightarrow> int" where
  "compare_dictionary_entries_by_entropy_desc entry1 entry2 =
     (let result = eliminated_diff entry1 entry2 in
      if result \<noteq> 0 then result
      else (let result = entropy_diff entry1 entry2 in
      if result \<noteq> 0 then result
      else compare_with_entropy_tie_breaker entry1 entry2))"

subsection \<open>Notions for the properties of the comparators\<close>

text \<open>
  \<open>three_way\<close> says that the sign of an \<open>int\<close>-valued comparator is a consistent total
  preorder; \<open>chain\<close> is the idiom "\<open>if (result != 0) return result;\<close>" followed by the next
  comparison; \<open>precedes\<close> is the strict order that the entropy comparator gives \<open>qsort\<close>.
\<close>

definition three_way :: "('a \<Rightarrow> 'a \<Rightarrow> int) \<Rightarrow> bool" where
  "three_way cmp =
     ((\<forall>a. cmp a a = 0) \<and>
      (\<forall>a b. (cmp a b < 0) = (0 < cmp b a)) \<and>
      (\<forall>a b c. cmp a b < 0 \<and> cmp b c < 0 \<longrightarrow> cmp a c < 0) \<and>
      (\<forall>a b c. cmp a b = 0 \<and> cmp b c = 0 \<longrightarrow> cmp a c = 0) \<and>
      (\<forall>a b c. cmp a b < 0 \<and> cmp b c = 0 \<longrightarrow> cmp a c < 0) \<and>
      (\<forall>a b c. cmp a b = 0 \<and> cmp b c < 0 \<longrightarrow> cmp a c < 0))"

definition chain :: "('a \<Rightarrow> 'a \<Rightarrow> int) \<Rightarrow> ('a \<Rightarrow> 'a \<Rightarrow> int) \<Rightarrow> 'a \<Rightarrow> 'a \<Rightarrow> int" where
  "chain c1 c2 a b = (if c1 a b \<noteq> 0 then c1 a b else c2 a b)"

definition table_position :: "char list \<Rightarrow> char \<Rightarrow> int" where
  "table_position order_tab t =
     (if t = order_tab ! 3 then 3 else if t = order_tab ! 2 then 2
      else if t = order_tab ! 1 then 1 else if t = order_tab ! 0 then 0 else 4)"

definition precedes :: "dictionary_entry \<Rightarrow> dictionary_entry \<Rightarrow> bool" where
  "precedes a b = (compare_dictionary_entries_by_entropy_desc a b < 0)"

definition equally_ranked :: "dictionary_entry \<Rightarrow> dictionary_entry \<Rightarrow> bool" where
  "equally_ranked a b = (\<not> precedes a b \<and> \<not> precedes b a)"

definition entry_c :: dictionary_entry where "entry_c = mk_entry ''GRACE'' 5 True"

definition entry_d :: dictionary_entry where "entry_d = mk_entry ''SPEED'' 3 True"

section \<open>Strategy engine (hybrid\_strategies.h, solver\_logic.cpp)\<close>

abbreviation PRUNE_COUNT :: int where
  "PRUNE_COUNT \<equiv> 60"

abbreviation MAX_GUESSES :: int where
  "MAX_GUESSES \<equiv> 6"

record HybridConfig =
  name :: string
  base_strategy_index :: int
  use_linguistic_filter :: bool
  linguistic_filter_start_turn :: int
  use_risk_filter :: bool
  prioritize_new_vowels :: bool
  prioritize_anchors :: bool
  prioritize_vowel_contingency :: bool
  look_ahead_depth :: int
  rank_priority_tolerance :: real
  opener_override_word :: "string option"
  use_heatmap_priority :: bool
  second_opener_override_word :: "string option"
  prioritize_turn2_coverage :: bool

subsection \<open>Filters and heuristic scores\<close>

definition is_linguistically_sound :: "dictionary_entry \<Rightarrow> bool" where
  "is_linguistically_sound pEntry =
     (if noun_type pEntry = CHR ''P'' then False
      else if verb_type pEntry = CHR ''T'' then False
      else if verb_type pEntry = CHR ''S'' then False
      else True)"

text \<open>
  \<open>is_risky_guess\<close>: the letters of the word are counted in \<open>guess_counts[26]\<close> (the source
  guards the index), then the second loop returns \<open>true\<close> at the first letter used more than
  once and more often than \<open>min_required_counts\<close> asks for.
\<close>

definition letter_count_step :: "string \<Rightarrow> nat \<Rightarrow> int list \<Rightarrow> int list" where
  "letter_count_step w i guess_counts =
     (let idx = letter_index (w ! i) in
      if idx \<ge> 0 \<and> idx < 26 then guess_counts[nat idx := guess_counts ! nat idx + 1]
      else guess_counts)"

definition is_risky_guess :: "dictionary_entry \<Rightarrow> int list \<Rightarrow> bool" where
  "is_risky_guess pEntry min_required_counts =
     (let guess_counts = fold (letter_count_step (word pEntry)) [0..<5] (replicate 26 0) in
      list_ex (\<lambda>i. guess_counts ! i > 1 \<and> guess_counts ! i > min_required_counts ! i) [0..<26])"

definition vowels :: string where
  "vowels = ''AEIOUY''"

text \<open>\<open>strchr(vowels, c) != NULL\<close>: the C function also finds the terminating NUL.\<close>

definition strchr_found :: "string \<Rightarrow> char \<Rightarrow> bool" where
  "strchr_found s c = (c \<in> set s \<or> c = CHR 0x00)"

definition count_known_vowels :: "int list \<Rightarrow> int" where
  "count_known_vowels min_required_counts =
     fold (\<lambda>i cnt. if min_required_counts ! nat (letter_index (vowels ! i)) > 0 then cnt + 1 else cnt)
       [0..<6] 0"

definition new_vowel_step :: "string \<Rightarrow> int list \<Rightarrow> nat \<Rightarrow> int \<times> bool list \<Rightarrow> int \<times> bool list" where
  "new_vowel_step w min_required_counts i st =
     (case st of (cnt, seen) \<Rightarrow>
        (let c = w ! i in
         if strchr_found vowels c
         then (let idx = nat (letter_index c) in
               if \<not> seen ! idx \<and> min_required_counts ! idx = 0
               then (cnt + 1, seen[idx := True]) else (cnt, seen))
         else (cnt, seen)))"

definition count_new_vowels :: "string \<Rightarrow> int list \<Rightarrow> int" where
  "count_new_vowels w min_required_counts =
     fst (fold (new_vowel_step w min_required_counts) [0..<5] (0, replicate 26 False))"

definition calculate_anchor_score :: "string \<Rightarrow> int" where
  "calculate_anchor_score w =
     (let score = 0;
          score = (if w ! 4 = CHR ''Y'' then score + 3
                   else if w ! 4 = CHR ''E'' then score + 2 else score);
          c = w ! 2;
          score = (if c = CHR ''A'' \<or> c = CHR ''E'' \<or> c = CHR ''I'' \<or> c = CHR ''O'' \<or> c = CHR ''U''
                   then score + 1 else score)
      in score)"

definition unique_vowel_step :: "string \<Rightarrow> nat \<Rightarrow> int \<times> bool list \<Rightarrow> int \<times> bool list" where
  "unique_vowel_step w i st =
     (case st of (cnt, seen) \<Rightarrow>
        (let c = w ! i in
         if strchr_found vowels c
         then (let idx = nat (letter_index c) in
               if \<not> seen ! idx then (cnt + 1, seen[idx := True]) else (cnt, seen))
         else (cnt, seen)))"

definition count_unique_vowels_simple :: "string \<Rightarrow> int" where
  "count_unique_vowels_simple w =
     fst (fold (unique_vowel_step w) [0..<5] (0, replicate 26 False))"

definition coverage_letter_step :: "string \<Rightarrow> int list \<Rightarrow> nat \<Rightarrow> int \<times> bool list \<Rightarrow> int \<times> bool list" where
  "coverage_letter_step w min_required_counts i st =
     (case st of (score, seen_in_word) \<Rightarrow>
        (let idx = letter_index (w ! i) in
         if idx \<ge> 0 \<and> idx < 26
         then (if \<not> seen_in_word ! nat idx
               then (if min_required_counts ! nat idx = 0 then score + 1 else score,
                     seen_in_word[nat idx := True])
               else (score, seen_in_word))
         else (score, seen_in_word)))"

definition calculate_new_letter_coverage :: "string \<Rightarrow> int list \<Rightarrow> int" where
  "calculate_new_letter_coverage w min_required_counts =
     fst (fold (coverage_letter_step w min_required_counts) [0..<5] (0, replicate 26 False))"

text \<open>The heat map \<open>int heatmap[5][26]\<close> is a list of five rows of 26 counters.\<close>

definition heatmap_letter_step :: "string \<Rightarrow> nat \<Rightarrow> int list list \<Rightarrow> int list list" where
  "heatmap_letter_step w j heatmap =
     (let char_idx = letter_index (w ! j) in
      if char_idx \<ge> 0 \<and> char_idx < 26
      then heatmap[j := (heatmap ! j)[nat char_idx := heatmap ! j ! nat char_idx + 1]]
      else heatmap)"

definition heatmap_entry_step :: "dictionary_entry list \<Rightarrow> nat \<Rightarrow> int list list \<Rightarrow> int list list" where
  "heatmap_entry_step p_dictionary i heatmap =
     (if \<not> is_eliminated (p_dictionary ! i)
      then fold (heatmap_letter_step (word (p_dictionary ! i))) [0..<5] heatmap
      else heatmap)"

definition build_heatmap_matrix :: "dictionary_entry list \<Rightarrow> int \<Rightarrow> int list list" where
  "build_heatmap_matrix p_dictionary pool_count =
     fold (heatmap_entry_step p_dictionary) [0..<nat pool_count] (replicate 5 (replicate 26 0))"

definition get_heatmap_score :: "string \<Rightarrow> int list list \<Rightarrow> int" where
  "get_heatmap_score w heatmap =
     fold (\<lambda>j score. let char_idx = letter_index (w ! j) in
                      if char_idx \<ge> 0 \<and> char_idx < 26 then score + heatmap ! j ! nat char_idx
                      else score)
       [0..<5] 0"

subsection \<open>Look-ahead bonus\<close>

text \<open>
  \<open>calculate_lookahead_bonus\<close>: the first loop fills \<open>int bins[243]\<close> from the first
  \<open>valid_count\<close> entries of the rank-sorted view, the second collects the sum of squares, the
  number of buckets of size one and the largest bucket. \<open>valid_count / 2\<close> is C integer
  division; it is reached only with \<open>valid_count > 4\<close>, where it agrees with \<open>div\<close>.
  \<open>MAX_GUESSES - turn\<close> is a subtraction of 32-bit \<open>int\<close>s.
\<close>

definition bins_step :: "dictionary_entry \<Rightarrow> dictionary_entry list \<Rightarrow> nat \<Rightarrow> int list \<Rightarrow> int list" where
  "bins_step candidate p_rank_sorted i bins =
     (let pattern_idx = nat (lookahead_feedback_index (word candidate) (word (p_rank_sorted ! i)))
      in bins[pattern_idx := bins ! pattern_idx + 1])"

definition analyze_step :: "int list \<Rightarrow> nat \<Rightarrow> real \<times> int \<times> int \<Rightarrow> real \<times> int \<times> int" where
  "analyze_step bins i st =
     (case st of (sum_squares, singles_count, max_bucket) \<Rightarrow>
        if bins ! i > 0
        then (sum_squares + real_of_int (bins ! i) * real_of_int (bins ! i),
              if bins ! i = 1 then singles_count + 1 else singles_count,
              if bins ! i > max_bucket then bins ! i else max_bucket)
        else (sum_squares, singles_count, max_bucket))"

definition calculate_lookahead_bonus ::
  "dictionary_entry \<Rightarrow> dictionary_entry list \<Rightarrow> int \<Rightarrow> int \<Rightarrow> real" where
  "calculate_lookahead_bonus candidate p_rank_sorted valid_count turn =
     (if valid_count \<le> 1 then 0
      else (let bins = fold (bins_step candidate p_rank_sorted) [0..<nat valid_count] (replicate 243 0)
            in case fold (analyze_step bins) [0..<243] (0, 0, 0) of
                 (sum_squares, singles_count, max_bucket) \<Rightarrow>
                   (let branching_factor = (real_of_int valid_count * real_of_int valid_count) / sum_squares;
                        safety_score = log 10 branching_factor;
                        sniper_bonus = (if turn > 1 then real_of_int singles_count * 0.04 else 0);
                        total_score = safety_score + sniper_bonus;
                        guesses_remaining = int32_wrap (MAX_GUESSES - turn)
                    in if max_bucket > guesses_remaining then total_score - 100
                       else if valid_count > 4 \<and> max_bucket > valid_count div 2 + 1 then total_score - 5
                       else total_score)))"

subsection \<open>The decision pipeline \<open>get_smart_hybrid_guess\<close>\<close>

text \<open>
  The two sorted views are arrays of entry pointers; they are the lists of the entries pointed
  to, and a returned pointer is the entry itself (\<open>NULL\<close> is \<open>None\<close>). The parameter
  \<open>count\<close> of the source is called \<open>pool_count\<close>.

  The filter block that the source repeats in the coverage, contingency, early-bias and
  heat-map loops is written once:
\<close>

definition standard_filters :: "HybridConfig \<Rightarrow> int list \<Rightarrow> int \<Rightarrow> dictionary_entry \<Rightarrow> bool" where
  "standard_filters config min_required_counts turn cand =
     (let pass = True;
          apply_ling = (use_linguistic_filter config \<and> turn \<ge> linguistic_filter_start_turn config);
          pass = (if apply_ling \<and> \<not> is_linguistically_sound cand then False else pass);
          pass = (if pass \<and> use_risk_filter config \<and> is_risky_guess cand min_required_counts
                  then False else pass)
      in pass)"

text \<open>Strategy D: turn-2 coverage over the top 100 of the rank view.\<close>

definition coverage_step ::
  "HybridConfig \<Rightarrow> int list \<Rightarrow> int \<Rightarrow> dictionary_entry list \<Rightarrow> nat
     \<Rightarrow> int \<times> dictionary_entry option \<Rightarrow> int \<times> dictionary_entry option" where
  "coverage_step config min_required_counts turn p_rank_sorted i st =
     (case st of (best_cov, best_cov_cand) \<Rightarrow>
        (let cand = p_rank_sorted ! i;
             pass = standard_filters config min_required_counts turn cand;
             pass = (if is_eliminated cand then False else pass)
         in if pass
            then (let cov = calculate_new_letter_coverage (word cand) min_required_counts in
                  if cov > best_cov then (cov, Some cand) else (best_cov, best_cov_cand))
            else (best_cov, best_cov_cand)))"

definition coverage_stage ::
  "dictionary_entry list \<Rightarrow> int \<Rightarrow> HybridConfig \<Rightarrow> int list \<Rightarrow> int \<Rightarrow> dictionary_entry option" where
  "coverage_stage p_rank_sorted pool_count config min_required_counts turn =
     (if prioritize_turn2_coverage config \<and> turn = 2
      then (let scan_limit = (if pool_count < 100 then pool_count else 100)
            in snd (fold (coverage_step config min_required_counts turn p_rank_sorted)
                      [0..<nat scan_limit] (- 1, None)))
      else None)"

text \<open>
  Strategies A and B: the state of either loop is the best integer score, the entropy of the
  best candidate and the candidate (\<open>best_candidate\<close>, \<open>NULL\<close> at the start of each loop that
  is reached). The two loops differ in the score only.
\<close>

definition scored_step ::
  "(dictionary_entry \<Rightarrow> int) \<Rightarrow> HybridConfig \<Rightarrow> int list \<Rightarrow> int \<Rightarrow> dictionary_entry list \<Rightarrow> nat
     \<Rightarrow> int \<times> real \<times> dictionary_entry option \<Rightarrow> int \<times> real \<times> dictionary_entry option" where
  "scored_step score_of config min_required_counts turn p_entropy_sorted i st =
     (case st of (best_score, best_ent, best_candidate) \<Rightarrow>
        (let cand = p_entropy_sorted ! i in
         if standard_filters config min_required_counts turn cand
         then (let sc = score_of cand in
               if sc > best_score then (sc, entropy cand, Some cand)
               else if sc = best_score
               then (if entropy cand > best_ent then (best_score, entropy cand, Some cand)
                     else (best_score, best_ent, best_candidate))
               else (best_score, best_ent, best_candidate))
         else (best_score, best_ent, best_candidate)))"

definition contingency_stage ::
  "dictionary_entry list \<Rightarrow> int \<Rightarrow> HybridConfig \<Rightarrow> int list \<Rightarrow> int \<Rightarrow> dictionary_entry option" where
  "contingency_stage p_entropy_sorted pool_count config min_required_counts turn =
     (if prioritize_vowel_contingency config \<and> turn = 2
      then (let known = count_known_vowels min_required_counts in
            if known < 2
            then (let scan = (if pool_count < 30 then pool_count else 30)
                  in snd (snd (fold (scored_step (\<lambda>cand. count_new_vowels (word cand) min_required_counts)
                                       config min_required_counts turn p_entropy_sorted)
                                 [0..<nat scan] (- 1, - 1, None))))
            else None)
      else None)"

definition early_bias_stage ::
  "dictionary_entry list \<Rightarrow> int \<Rightarrow> HybridConfig \<Rightarrow> int list \<Rightarrow> int \<Rightarrow> dictionary_entry option" where
  "early_bias_stage p_entropy_sorted pool_count config min_required_counts turn =
     (if turn \<le> 2 \<and> (prioritize_new_vowels config \<or> prioritize_anchors config)
      then (let scan = (if pool_count < 30 then pool_count else 30)
            in snd (snd (fold (scored_step
                                 (\<lambda>cand. if prioritize_anchors config
                                          then calculate_anchor_score (word cand)
                                          else count_unique_vowels_simple (word cand))
                                 config min_required_counts turn p_entropy_sorted)
                           [0..<nat scan] (- 1, - 1, None))))
      else None)"

text \<open>
  Heat-map priority. The loop leaves (\<open>break\<close>) once twenty candidates were scored; since
  \<open>scanned\<close> never decreases, the remaining iterations are skipped one by one here.
\<close>

definition heatmap_step ::
  "int list list \<Rightarrow> HybridConfig \<Rightarrow> int list \<Rightarrow> int \<Rightarrow> dictionary_entry list \<Rightarrow> nat
     \<Rightarrow> int \<times> dictionary_entry option \<times> int \<Rightarrow> int \<times> dictionary_entry option \<times> int" where
  "heatmap_step heatmap config min_required_counts turn p_entropy_sorted i st =
     (case st of (best_heatmap_score, best_heatmap_cand, scanned) \<Rightarrow>
        if scanned \<ge> 20 then (best_heatmap_score, best_heatmap_cand, scanned)
        else (let cand = p_entropy_sorted ! i in
              if standard_filters config min_required_counts turn cand
              then (let score = get_heatmap_score (word cand) heatmap in
                    if score > best_heatmap_score then (score, Some cand, scanned + 1)
                    else (best_heatmap_score, best_heatmap_cand, scanned + 1))
              else (best_heatmap_score, best_heatmap_cand, scanned)))"

definition heatmap_stage ::
  "dictionary_entry list \<Rightarrow> int \<Rightarrow> HybridConfig \<Rightarrow> int list \<Rightarrow> int \<Rightarrow> int \<Rightarrow> dictionary_entry option" where
  "heatmap_stage p_entropy_sorted pool_count config min_required_counts valid_count turn =
     (if use_heatmap_priority config \<and> valid_count > 2
      then (let heatmap = build_heatmap_matrix p_entropy_sorted pool_count
            in fst (snd (fold (heatmap_step heatmap config min_required_counts turn p_entropy_sorted)
                           [0..<nat pool_count] (- 1, None, 0))))
      else None)"

text \<open>
  Strategy C, the main loop. \<open>main_loop_pass\<close> is the value of \<open>pass\<close> for one candidate;
  the loop state is \<open>best_combined_score\<close>, \<open>best_final_candidate\<close> and
  \<open>candidates_evaluated\<close>. The \<open>break\<close> on \<open>candidates_evaluated >= max_evals\<close> skips the
  remaining iterations, as in the heat-map loop.
\<close>

definition main_loop_pass :: "HybridConfig \<Rightarrow> int list \<Rightarrow> int \<Rightarrow> int \<Rightarrow> dictionary_entry \<Rightarrow> bool" where
  "main_loop_pass config min_required_counts valid_count turn cand =
     (let is_endgame_panic = (valid_count \<le> 20);
          pass = True;
          is_endgame_solver = (\<not> is_eliminated cand \<and> valid_count \<le> 10)
      in if \<not> is_endgame_solver
         then (let apply_ling = (use_linguistic_filter config \<and> turn \<ge> linguistic_filter_start_turn config);
                   apply_ling = (if is_endgame_panic then False else apply_ling);
                   pass = (if apply_ling \<and> \<not> is_linguistically_sound cand then False else pass);
                   pass = (if pass \<and> use_risk_filter config \<and> is_risky_guess cand min_required_counts
                           then False else pass)
               in pass)
         else pass)"

definition main_loop_step ::
  "dictionary_entry list \<Rightarrow> dictionary_entry list \<Rightarrow> HybridConfig \<Rightarrow> int list \<Rightarrow> int \<Rightarrow> int \<Rightarrow> int
     \<Rightarrow> nat \<Rightarrow> real \<times> dictionary_entry option \<times> int \<Rightarrow> real \<times> dictionary_entry option \<times> int" where
  "main_loop_step p_entropy_sorted p_rank_sorted config min_required_counts valid_count turn max_evals i st =
     (case st of (best_combined_score, best_final_candidate, candidates_evaluated) \<Rightarrow>
        if candidates_evaluated \<ge> max_evals
        then (best_combined_score, best_final_candidate, candidates_evaluated)
        else (let cand = p_entropy_sorted ! i;
                  is_endgame_panic = (valid_count \<le> 20)
              in if main_loop_pass config min_required_counts valid_count turn cand
                 then (let current_score = entropy cand;
                           current_score =
                             (if look_ahead_depth config > 0 \<and> \<not> is_endgame_panic
                              then current_score
                                     + calculate_lookahead_bonus cand p_rank_sorted valid_count turn
                              else current_score)
                       in if current_score > best_combined_score
                          then (current_score, Some cand, candidates_evaluated + 1)
                          else (best_combined_score, best_final_candidate, candidates_evaluated + 1))
                 else (best_combined_score, best_final_candidate, candidates_evaluated)))"

definition main_loop ::
  "dictionary_entry list \<Rightarrow> dictionary_entry list \<Rightarrow> int \<Rightarrow> HybridConfig \<Rightarrow> int list \<Rightarrow> int \<Rightarrow> int
     \<Rightarrow> dictionary_entry" where
  "main_loop p_entropy_sorted p_rank_sorted pool_count config min_required_counts valid_count turn =
     (let is_endgame_panic = (valid_count \<le> 20);
          max_evals = (if look_ahead_depth config > 0 \<and> \<not> is_endgame_panic
                       then PRUNE_COUNT else pool_count);
          best_final_candidate =
            fst (snd (fold (main_loop_step p_entropy_sorted p_rank_sorted config min_required_counts
                              valid_count turn max_evals)
                        [0..<nat pool_count] (- 1000, None, 0)))
      in case best_final_candidate of
           None \<Rightarrow> p_entropy_sorted ! 0
         | Some cand \<Rightarrow> cand)"

text \<open>
  The rank tie-break. Its loop stops at the first rank-ordered candidate that passes; the
  filters are those of the main loop without the panic override (the block runs only outside
  panic mode). \<open>diff\<close> is a difference of two doubles, computed in double arithmetic.
\<close>

definition rank_pass :: "HybridConfig \<Rightarrow> int list \<Rightarrow> int \<Rightarrow> int \<Rightarrow> dictionary_entry \<Rightarrow> bool" where
  "rank_pass config min_required_counts valid_count turn cand =
     (let pass = True;
          is_endgame = (\<not> is_eliminated cand \<and> valid_count \<le> 10)
      in if \<not> is_endgame
         then (let apply_ling = (use_linguistic_filter config \<and> turn \<ge> linguistic_filter_start_turn config);
                   pass = (if apply_ling \<and> \<not> is_linguistically_sound cand then False else pass);
                   pass = (if pass \<and> use_risk_filter config \<and> is_risky_guess cand min_required_counts
                           then False else pass)
               in pass)
         else pass)"

definition rank_tie_break ::
  "dictionary_entry \<Rightarrow> dictionary_entry list \<Rightarrow> int \<Rightarrow> HybridConfig \<Rightarrow> int list \<Rightarrow> int \<Rightarrow> int
     \<Rightarrow> dictionary_entry" where
  "rank_tie_break best_final_candidate p_rank_sorted pool_count config min_required_counts valid_count turn =
     (let is_endgame_panic = (valid_count \<le> 20) in
      if rank_priority_tolerance config > 0 \<and> \<not> is_endgame_panic
      then (let best_rank_cand =
                  (case find (\<lambda>i. rank_pass config min_required_counts valid_count turn (p_rank_sorted ! i))
                          [0..<nat pool_count] of
                     None \<Rightarrow> p_rank_sorted ! 0
                   | Some i \<Rightarrow> p_rank_sorted ! i);
                diff = double_sub (entropy best_final_candidate) (entropy best_rank_cand)
            in if diff < rank_priority_tolerance config then best_rank_cand else best_final_candidate)
      else best_final_candidate)"

definition get_smart_hybrid_guess ::
  "dictionary_entry list \<Rightarrow> dictionary_entry list \<Rightarrow> int \<Rightarrow> HybridConfig \<Rightarrow> int list \<Rightarrow> int \<Rightarrow> int
     \<Rightarrow> dictionary_entry option" where
  "get_smart_hybrid_guess p_entropy_sorted p_rank_sorted pool_count config min_required_counts valid_count turn =
     (if pool_count = 0 then None
      else case coverage_stage p_rank_sorted pool_count config min_required_counts turn of
        Some best_cov_cand \<Rightarrow> Some best_cov_cand
      | None \<Rightarrow>
      (case contingency_stage p_entropy_sorted pool_count config min_required_counts turn of
        Some best_candidate \<Rightarrow> Some best_candidate
      | None \<Rightarrow>
      (case early_bias_stage p_entropy_sorted pool_count config min_required_counts turn of
        Some best_candidate \<Rightarrow> Some best_candidate
      | None \<Rightarrow>
      (case heatmap_stage p_entropy_sorted pool_count config min_required_counts valid_count turn of
        Some best_heatmap_cand \<Rightarrow> Some best_heatmap_cand
      | None \<Rightarrow>
        Some (rank_tie_break
                (main_loop p_entropy_sorted p_rank_sorted pool_count config min_required_counts
                   valid_count turn)
                p_rank_sorted pool_count config min_required_counts valid_count turn)))))"

subsection \<open>The look-ahead bonus in the words of the specification\<close>

text \<open>
  The 243 bucket sizes of a candidate against the first \<open>valid_count\<close> answers, their sum of
  squares, the number of buckets of size one and the largest bucket; \<open>lookahead_total\<close> is the
  specification's formula for a given sniper bonus, and \<open>sniper_bonus\<close> the specification's
  bonus (none on turn 1). Turns are counted from 1.
\<close>

definition bucket_sizes :: "dictionary_entry \<Rightarrow> dictionary_entry list \<Rightarrow> int \<Rightarrow> int list" where
  "bucket_sizes candidate answers valid_count =
     map (\<lambda>k. int (length (filter (\<lambda>e. lookahead_feedback_index (word candidate) (word e) = int k)
                               (take (nat valid_count) answers))))
       [0..<243]"

definition sum_of_squares :: "int list \<Rightarrow> real" where
  "sum_of_squares buckets = (\<Sum>b\<leftarrow>buckets. real_of_int b * real_of_int b)"

definition singles :: "int list \<Rightarrow> int" where
  "singles buckets = int (length (filter (\<lambda>b. b = 1) buckets))"

definition largest :: "int list \<Rightarrow> int" where
  "largest buckets = Max (set buckets)"

definition lookahead_total :: "dictionary_entry \<Rightarrow> dictionary_entry list \<Rightarrow> int \<Rightarrow> real \<Rightarrow> int \<Rightarrow> real" where
  "lookahead_total candidate answers valid_count sniper_bonus turn =
     (let buckets = bucket_sizes candidate answers valid_count;
          safety = log 10 ((real_of_int valid_count)\<^sup>2 / sum_of_squares buckets);
          total = safety + sniper_bonus
      in if largest buckets > 6 - turn then total - 100
         else if valid_count > 4 \<and> largest buckets > valid_count div 2 + 1 then total - 5
         else total)"

definition sniper_bonus :: "int list \<Rightarrow> int \<Rightarrow> real" where
  "sniper_bonus buckets turn = (if turn = 1 then 0 else 0.04 * real_of_int (singles buckets))"

definition analyze_elem :: "int \<Rightarrow> real \<times> int \<times> int \<Rightarrow> real \<times> int \<times> int" where
  "analyze_elem b st =
     (case st of (sum_squares, singles_count, max_bucket) \<Rightarrow>
        if b > 0
        then (sum_squares + real_of_int b * real_of_int b,
              if b = 1 then singles_count + 1 else singles_count,
              if b > max_bucket then b else max_bucket)
        else (sum_squares, singles_count, max_bucket))"

definition two_answers :: "dictionary_entry list" where
  "two_answers = [entry_a, entry_b]"

subsection \<open>Notions for the properties of the decision pipeline\<close>

text \<open>
  \<open>no_candidate_passes\<close>: none of the first \<open>pool_count\<close> entries of a view passes the filters
  of the main loop. \<open>risk_filter_pass\<close>: what remains of those filters in panic mode.
  \<open>entropy_scan\<close> and \<open>first_max_entropy\<close>: the running maximum of the entropies from the
  initial score \<open>-1000\<close>, and the first entry of greatest entropy of a list. The configurations
  are entries 0 and 2 of \<open>ALL_STRATEGIES\<close> in hybrid\_strategies.cpp. The plural views are the
  two views of a pool of 21 plural nouns: CAKES with entropy \<open>h1\<close> and rank 20, BAKES with
  entropy \<open>h2\<close> and rank 90, and 19 more words with entropy \<open>h\<close> and rank 10.
\<close>

definition from_view :: "dictionary_entry list \<Rightarrow> int \<Rightarrow> dictionary_entry option \<Rightarrow> bool" where
  "from_view view n r = (case r of None \<Rightarrow> True | Some c \<Rightarrow> c \<in> set (take (nat n) view))"

definition legacy_reborn :: HybridConfig where
  "legacy_reborn = \<lparr>name = ''Legacy Reborn (Smart)'', base_strategy_index = - 1,
     use_linguistic_filter = True, linguistic_filter_start_turn = 1, use_risk_filter = True,
     prioritize_new_vowels = False, prioritize_anchors = False, prioritize_vowel_contingency = False,
     look_ahead_depth = 0, rank_priority_tolerance = 0.50, opener_override_word = None,
     use_heatmap_priority = False, second_opener_override_word = None,
     prioritize_turn2_coverage = False\<rparr>"

definition plural_entry :: "string \<Rightarrow> real \<Rightarrow> int \<Rightarrow> dictionary_entry" where
  "plural_entry w h r = \<lparr>word = w, entropy = h, frequency_rank = r, noun_type = CHR ''P'',
     verb_type = CHR ''N'', contains_duplicate_letters = False, is_eliminated = False\<rparr>"

definition plural_tail :: "real \<Rightarrow> dictionary_entry list" where
  "plural_tail h = map (\<lambda>w. plural_entry w h 10)
     [''BIKES'', ''DIKES'', ''DUKES'', ''FAKES'', ''HIKES'', ''JOKES'', ''LAKES'', ''LIKES'',
      ''LUKES'', ''MAKES'', ''NUKES'', ''PIKES'', ''POKES'', ''PUKES'', ''RAKES'', ''TAKES'',
      ''TIKES'', ''WAKES'', ''YOKES'']"

definition plural_entropy_view :: "real \<Rightarrow> real \<Rightarrow> real \<Rightarrow> dictionary_entry list" where
  "plural_entropy_view h1 h2 h =
     plural_entry ''CAKES'' h1 20 # plural_entry ''BAKES'' h2 90 # plural_tail h"

definition plural_rank_view :: "real \<Rightarrow> real \<Rightarrow> real \<Rightarrow> dictionary_entry list" where
  "plural_rank_view h1 h2 h =
     plural_entry ''BAKES'' h2 90 # plural_entry ''CAKES'' h1 20 # plural_tail h"

definition no_candidate_passes ::
  "HybridConfig \<Rightarrow> int list \<Rightarrow> int \<Rightarrow> int \<Rightarrow> dictionary_entry list \<Rightarrow> int \<Rightarrow> bool" where
  "no_candidate_passes config min_required_counts valid_count turn view pool_count =
     list_all (\<lambda>cand. \<not> main_loop_pass config min_required_counts valid_count turn cand)
       (take (nat pool_count) view)"

definition entropy_linguist :: HybridConfig where
  "entropy_linguist = \<lparr>name = ''Entropy Linguist (Strict)'', base_strategy_index = - 1,
     use_linguistic_filter = True, linguistic_filter_start_turn = 1, use_risk_filter = False,
     prioritize_new_vowels = False, prioritize_anchors = False, prioritize_vowel_contingency = False,
     look_ahead_depth = 0, rank_priority_tolerance = 0.0, opener_override_word = None,
     use_heatmap_priority = False, second_opener_override_word = None,
     prioritize_turn2_coverage = False\<rparr>"

definition best_entropy_step ::
  "dictionary_entry \<Rightarrow> real \<times> dictionary_entry option \<Rightarrow> real \<times> dictionary_entry option" where
  "best_entropy_step c st =
     (case st of (best, best_cand) \<Rightarrow> if entropy c > best then (entropy c, Some c) else (best, best_cand))"

definition entropy_scan :: "dictionary_entry list \<Rightarrow> real \<times> dictionary_entry option" where
  "entropy_scan xs = fold best_entropy_step xs (- 1000, None)"

definition first_max_entropy :: "dictionary_entry \<Rightarrow> dictionary_entry list \<Rightarrow> bool" where
  "first_max_entropy c xs =
     (\<exists>k<length xs. xs ! k = c \<and> (\<forall>j<length xs. entropy (xs ! j) \<le> entropy c)
                     \<and> (\<forall>j<k. entropy (xs ! j) < entropy c))"

definition risk_filter_pass :: "HybridConfig \<Rightarrow> int list \<Rightarrow> int \<Rightarrow> dictionary_entry \<Rightarrow> bool" where
  "risk_filter_pass config min_required_counts valid_count cand =
     ((\<not> is_eliminated cand \<and> valid_count \<le> 10)
      \<or> \<not> (use_risk_filter config \<and> is_risky_guess cand min_required_counts))"

definition panic_candidates ::
  "HybridConfig \<Rightarrow> int list \<Rightarrow> int \<Rightarrow> dictionary_entry list \<Rightarrow> int \<Rightarrow> dictionary_entry list" where
  "panic_candidates config min_required_counts valid_count view pool_count =
     filter (risk_filter_pass config min_required_counts valid_count) (take (nat pool_count) view)"

definition scan_inv :: "dictionary_entry list \<Rightarrow> real \<times> dictionary_entry option \<Rightarrow> bool" where
  "scan_inv xs st =
     (case st of (best, best_cand) \<Rightarrow>
        (case best_cand of
           None \<Rightarrow> best = - 1000 \<and> (\<forall>j<length xs. entropy (xs ! j) \<le> - 1000)
         | Some c \<Rightarrow> best = entropy c \<and> - 1000 < entropy c \<and> first_max_entropy c xs))"

definition burner :: dictionary_entry where
  "burner = \<lparr>word = ''SPEED'', entropy = 1.5, frequency_rank = 40, noun_type = CHR ''S'',
     verb_type = CHR ''P'', contains_duplicate_letters = True, is_eliminated = True\<rparr>"

definition panic_entropy_view :: "dictionary_entry list" where
  "panic_entropy_view = [burner, mk_entry ''BRACE'' 0.9 False, mk_entry ''CRANE'' 0.9 False,
     mk_entry ''TRACE'' 0.9 False]"

definition panic_rank_view :: "dictionary_entry list" where
  "panic_rank_view = [mk_entry ''BRACE'' 0.9 False, mk_entry ''CRANE'' 0.9 False,
     mk_entry ''TRACE'' 0.9 False, burner]"

definition double_letter_view :: "dictionary_entry list" where
  "double_letter_view = map (\<lambda>w. \<lparr>word = w, entropy = 2, frequency_rank = 30, noun_type = CHR ''S'',
       verb_type = CHR ''N'', contains_duplicate_letters = True, is_eliminated = False\<rparr>)
     [''GEESE'', ''SHEEP'', ''SHEER'', ''SHEET'', ''SLEEP'', ''SMELL'', ''SNEER'', ''SPEED'',
      ''SPELL'', ''SPREE'', ''STEEL'', ''STEEP'', ''STEER'', ''SWEEP'', ''SWEET'']"

section \<open>Properties of the feedback codec\<close>

lemma upt5: "[0..<5] = [0, 1, 2, 3, 4]"
  by (simp add: upt_rec)

lemma map_upt_update:
  "(map f [0..<m])[k := v] = map (\<lambda>j. if j = k then v else f j) [0..<m]"
  by (rule nth_equalityI) (simp_all add: nth_list_update)

lemma fold_upt_Suc: "fold f [0..<Suc n] s = f n (fold f [0..<n] s)"
  by simp

lemma green_pass_fold:
  "n \<le> 5 \<Longrightarrow>
   fold (green_pass_step g a) [0..<n] (replicate 5 (CHR ''B''), replicate 26 0) =
     (map (\<lambda>i. if i < n \<and> g ! i = a ! i then CHR ''G'' else CHR ''B'') [0..<5],
      map (\<lambda>k. int (length (filter (\<lambda>i. g ! i \<noteq> a ! i \<and> nat (letter_index (a ! i)) = k) [0..<n]))) [0..<26])"
proof (induction n)
  case 0
  show ?case by (simp add: map_replicate_const)
next
  case (Suc n)
  then have n: "n < 5" and IH: "fold (green_pass_step g a) [0..<n] (replicate 5 (CHR ''B''), replicate 26 0) =
     (map (\<lambda>i. if i < n \<and> g ! i = a ! i then CHR ''G'' else CHR ''B'') [0..<5],
      map (\<lambda>k. int (length (filter (\<lambda>i. g ! i \<noteq> a ! i \<and> nat (letter_index (a ! i)) = k) [0..<n]))) [0..<26])"
    by simp_all
  show ?case
  proof (cases "g ! n = a ! n")
    case True
    have 0: "(map (\<lambda>i. if i < n \<and> g ! i = a ! i then CHR ''G'' else CHR ''B'') [0..<5])[n := CHR ''G'']
        = map (\<lambda>i. if i < Suc n \<and> g ! i = a ! i then CHR ''G'' else CHR ''B'') [0..<5]"
      using n True by (intro nth_equalityI) (auto simp: nth_list_update less_Suc_eq)
    have step: "green_pass_step g a n (P, C) = (P[n := CHR ''G''], C)" for P C
      using True by (simp add: green_pass_step_def)
    have c: "filter (\<lambda>i. g ! i \<noteq> a ! i \<and> nat (letter_index (a ! i)) = k) [0..<Suc n]
           = filter (\<lambda>i. g ! i \<noteq> a ! i \<and> nat (letter_index (a ! i)) = k) [0..<n]" for k
      using True by simp
    show ?thesis
      by (simp only: fold_upt_Suc IH step 0 c)
  next
    case False
    let ?k = "nat (letter_index (a ! n))"
    let ?c = "\<lambda>m k. int (length (filter (\<lambda>i. g ! i \<noteq> a ! i \<and> nat (letter_index (a ! i)) = k) [0..<m]))"
    have 1: "map (\<lambda>i. if i < n \<and> g ! i = a ! i then CHR ''G'' else CHR ''B'') [0..<5]
        = map (\<lambda>i. if i < Suc n \<and> g ! i = a ! i then CHR ''G'' else CHR ''B'') [0..<5]"
      using False by (auto simp: less_Suc_eq)
    have c: "?c (Suc n) k = (if k = ?k then ?c n k + 1 else ?c n k)" for k
      using False by simp
    have 2: "(map (?c n) [0..<26])[?k := map (?c n) [0..<26] ! ?k + 1] = map (?c (Suc n)) [0..<26]"
      unfolding map_upt_update c by (rule map_cong) auto
    have step: "green_pass_step g a n (P, C) = (P, C[?k := C ! ?k + 1])" for P C
      using False by (simp add: green_pass_step_def)
    show ?thesis
      by (simp only: fold_upt_Suc IH step 2 1)
  qed
qed

lemma green_pass_eq:
  "green_pass g a =
     (map (\<lambda>i. if g ! i = a ! i then CHR ''G'' else CHR ''B'') [0..<5],
      map (unmatched g a) [0..<26])"
proof -
  have m: "map (\<lambda>i. if i < 5 \<and> g ! i = a ! i then CHR ''G'' else CHR ''B'') [0..<5]
      = map (\<lambda>i. if g ! i = a ! i then CHR ''G'' else CHR ''B'') [0..<5]"
    by (rule map_cong) auto
  have u: "(\<lambda>k. int (length (filter (\<lambda>i. g ! i \<noteq> a ! i \<and> nat (letter_index (a ! i)) = k) [0..<5])))
      = unmatched g a" by (rule ext) (simp only: unmatched_def)
  show ?thesis
    unfolding green_pass_def by (simp only: green_pass_fold[OF order_refl] m u)
qed

lemma yellow_inv_init: "yellow_inv g a 0 (green_pass g a)"
  by (simp add: green_pass_eq yellow_inv_def yellows_def unmatched_def)

lemma yellows_Suc:
  "yellows g pat (Suc n) k =
     yellows g pat n k + (if pat ! n = CHR ''Y'' \<and> nat (letter_index (g ! n)) = k then 1 else 0)"
  by (simp add: yellows_def)

lemma yellows_update: "yellows g (pat[n := c]) n k = yellows g pat n k"
proof -
  have "filter (\<lambda>i. pat[n := c] ! i = CHR ''Y'' \<and> nat (letter_index (g ! i)) = k) [0..<n]
      = filter (\<lambda>i. pat ! i = CHR ''Y'' \<and> nat (letter_index (g ! i)) = k) [0..<n]"
    by (rule filter_cong) auto
  then show ?thesis by (simp only: yellows_def)
qed

lemma yellow_inv_step:
  assumes n: "n < 5" and k: "nat (letter_index (g ! n)) < 26" and inv: "yellow_inv g a n st"
  shows "yellow_inv g a (Suc n) (yellow_pass_step g n st)"
proof -
  obtain pat cnt where st: "st = (pat, cnt)" by (cases st)
  let ?k = "nat (letter_index (g ! n))"
  from inv st have len: "length pat = 5" "length cnt = 26"
    and G: "\<forall>i<5. (pat ! i = CHR ''G'') = (g ! i = a ! i)"
    and C: "\<forall>i<5. pat ! i = CHR ''G'' \<or> pat ! i = CHR ''Y'' \<or> pat ! i = CHR ''B''"
    and Y: "\<forall>i<5. n \<le> i \<longrightarrow> pat ! i \<noteq> CHR ''Y''"
    and K: "\<forall>k<26. 0 \<le> cnt ! k \<and> cnt ! k + yellows g pat n k = unmatched g a k"
    unfolding yellow_inv_def by blast+
  from Y n have nY: "pat ! n \<noteq> CHR ''Y''" by simp
  show ?thesis
  proof (cases "pat ! n \<noteq> CHR ''G'' \<and> cnt ! ?k > 0")
    case True
    then have step: "yellow_pass_step g n st = (pat[n := CHR ''Y''], cnt[?k := cnt ! ?k - 1])"
      by (simp add: yellow_pass_step_def st Let_def)
    from True G n have ne: "g ! n \<noteq> a ! n" by simp
    show ?thesis
      unfolding step yellow_inv_def prod.case
      using len G C Y K n k True ne
      by (auto simp: nth_list_update yellows_Suc yellows_update)
  next
    case False
    then have step: "yellow_pass_step g n st = (pat, cnt)"
      by (auto simp add: yellow_pass_step_def st Let_def)
    show ?thesis
      unfolding step yellow_inv_def prod.case
      using len G C Y K n nY
      by (auto simp: yellows_Suc)
  qed
qed

lemma yellow_inv_fold:
  assumes g: "valid_word g" and n: "n \<le> 5"
  shows "yellow_inv g a n (fold (yellow_pass_step g) [0..<n] (green_pass g a))"
  using n
proof (induction n)
  case 0
  show ?case by (simp add: yellow_inv_init)
next
  case (Suc n)
  then have n: "n < 5" and IH: "yellow_inv g a n (fold (yellow_pass_step g) [0..<n] (green_pass g a))"
    by simp_all
  from g n have "is_upper_letter (g ! n)"
    by (simp add: valid_word_def list_all_length)
  then have k: "nat (letter_index (g ! n)) < 26"
    unfolding is_upper_letter_def by linarith
  show ?case
    unfolding fold_upt_Suc by (rule yellow_inv_step[OF n k IH])
qed

lemma letter_index_inj:
  "is_upper_letter x \<Longrightarrow> is_upper_letter y \<Longrightarrow>
   (nat (letter_index x) = nat (letter_index y)) = (x = y)"
proof
  assume u: "is_upper_letter x" "is_upper_letter y" and e: "nat (letter_index x) = nat (letter_index y)"
  then have "letter_index x = letter_index y"
    unfolding is_upper_letter_def by linarith
  then have "(of_char x :: int) = of_char y"
    unfolding letter_index_def by linarith
  then show "x = y" by (simp only: of_char_eq_iff)
qed simp

lemma valid_word_nth: "valid_word w \<Longrightarrow> i < 5 \<Longrightarrow> is_upper_letter (w ! i)"
  by (simp add: valid_word_def list_all_length)

lemma get_feedback_pattern_inv:
  assumes "valid_word g"
  shows "\<exists>cnt. yellow_inv g a 5 (get_feedback_pattern g a, cnt)"
proof -
  have "yellow_inv g a 5 (fold (yellow_pass_step g) [0..<5] (green_pass g a))"
    by (rule yellow_inv_fold[OF assms order_refl])
  then have "yellow_inv g a 5 (get_feedback_pattern g a, snd (fold (yellow_pass_step g) [0..<5] (green_pass g a)))"
    by (simp add: get_feedback_pattern_def green_pass_def)
  then show ?thesis ..
qed

lemma yellow_count_le:
  assumes g: "valid_word g" and a: "valid_word a"
  shows "yellow_count (get_feedback_pattern g a) g c \<le> unmatched_count (get_feedback_pattern g a) a c"
proof (cases "is_upper_letter c")
  case False
  have "filter (\<lambda>i. get_feedback_pattern g a ! i = CHR ''Y'' \<and> g ! i = c) [0..<5] = []"
    using False valid_word_nth[OF g] by (auto simp: filter_empty_conv)
  then show ?thesis by (simp add: yellow_count_def)
next
  case True
  let ?pat = "get_feedback_pattern g a"
  let ?k = "nat (letter_index c)"
  from True have k: "?k < 26" unfolding is_upper_letter_def by linarith
  from get_feedback_pattern_inv[OF g, of a] obtain cnt where inv: "yellow_inv g a 5 (?pat, cnt)" ..
  from inv have G: "\<forall>i<5. (?pat ! i = CHR ''G'') = (g ! i = a ! i)"
    and K: "\<forall>k<26. 0 \<le> cnt ! k \<and> cnt ! k + yellows g ?pat 5 k = unmatched g a k"
    unfolding yellow_inv_def prod.case by blast+
  from K k have le: "yellows g ?pat 5 ?k \<le> unmatched g a ?k" by fastforce
  have "filter (\<lambda>i. ?pat ! i = CHR ''Y'' \<and> nat (letter_index (g ! i)) = ?k) [0..<5]
      = filter (\<lambda>i. ?pat ! i = CHR ''Y'' \<and> g ! i = c) [0..<5]"
    by (rule filter_cong) (auto simp: letter_index_inj[OF valid_word_nth[OF g] True])
  then have y: "yellows g ?pat 5 ?k = int (yellow_count ?pat g c)"
    by (simp only: yellows_def yellow_count_def)
  have "filter (\<lambda>i. g ! i \<noteq> a ! i \<and> nat (letter_index (a ! i)) = ?k) [0..<5]
      = filter (\<lambda>i. a ! i = c \<and> ?pat ! i \<noteq> CHR ''G'') [0..<5]"
    using G by (intro filter_cong) (auto simp: letter_index_inj[OF valid_word_nth[OF a] True])
  then have u: "unmatched g a ?k = int (unmatched_count ?pat a c)"
    by (simp only: unmatched_def unmatched_count_def)
  from le show ?thesis unfolding y u by simp
qed

lemma speed_abide: "yellow_count (get_feedback_pattern ''SPEED'' ''ABIDE'') ''SPEED'' (CHR ''E'') = 1"
  by code_simp

lemma fold_rel:
  "R s t \<Longrightarrow> (\<And>i s t. i \<in> set js \<Longrightarrow> R s t \<Longrightarrow> R (f i s) (h i t)) \<Longrightarrow>
   R (fold f js s) (fold h js t)"
  by (induction js arbitrary: s t) simp_all

lemma color_code_G: "(color_code c = 2) = (c = CHR ''G'')"
  by (simp add: color_code_def)

lemma color_code_range: "0 \<le> color_code c \<and> color_code c \<le> 2"
  by (simp add: color_code_def)

lemma codec_rel_green:
  "i < 5 \<Longrightarrow> codec_rel s t \<Longrightarrow> codec_rel (green_pass_step g a i s) (index_green_step g a i t)"
  by (cases s; cases t)
     (simp add: codec_rel_def green_pass_step_def index_green_step_def map_update color_code_def)

lemma codec_rel_yellow:
  "i < 5 \<Longrightarrow> codec_rel s t \<Longrightarrow> codec_rel (yellow_pass_step g i s) (index_yellow_step g i t)"
  by (cases s; cases t)
     (simp add: codec_rel_def yellow_pass_step_def index_yellow_step_def map_update Let_def
        color_code_G, simp add: color_code_def)

lemma codec_rel_passes:
  "codec_rel (fold (yellow_pass_step g) [0..<5] (fold (green_pass_step g a) [0..<5] (replicate 5 (CHR ''B''), replicate 26 0)))
             (fold (index_yellow_step g) [0..<5] (fold (index_green_step g a) [0..<5] (replicate 5 0, replicate 26 0)))"
proof -
  have 0: "codec_rel (replicate 5 (CHR ''B''), replicate 26 0) (replicate 5 0, replicate 26 0)"
    by (simp add: codec_rel_def color_code_def)
  have 1: "codec_rel (fold (green_pass_step g a) [0..<5] (replicate 5 (CHR ''B''), replicate 26 0))
                     (fold (index_green_step g a) [0..<5] (replicate 5 0, replicate 26 0))"
    by (rule fold_rel[where R = codec_rel, OF 0]) (simp add: codec_rel_green)
  show ?thesis
    by (rule fold_rel[where R = codec_rel, OF 1]) (simp add: codec_rel_yellow)
qed

lemma states_eq_pattern:
  "fst (fold (index_yellow_step g) [0..<5] (fold (index_green_step g a) [0..<5] (replicate 5 0, replicate 26 0)))
     = map color_code (get_feedback_pattern g a)"
  using codec_rel_passes[of g a] by (simp add: codec_rel_def get_feedback_pattern_def)

lemma get_feedback_pattern_length: "length (get_feedback_pattern g a) = 5"
  using codec_rel_passes[of g a] by (simp add: codec_rel_def get_feedback_pattern_def)

lemma encode_sum:
  "fst (fold (encode_step sts) [0..<5] (0, 1)) = (\<Sum>i<5. sts ! i * 3 ^ i)"
  by (simp add: upt5 encode_step_def eval_nat_numeral)

lemma compute_feedback_index_eq:
  "compute_feedback_index g a = (\<Sum>i<5. color_code (get_feedback_pattern g a ! i) * 3 ^ i)"
proof -
  have "compute_feedback_index g a = (\<Sum>i<5. map color_code (get_feedback_pattern g a) ! i * 3 ^ i)"
    unfolding compute_feedback_index_def Let_def states_eq_pattern by (rule encode_sum)
  also have "\<dots> = (\<Sum>i<5. color_code (get_feedback_pattern g a ! i) * 3 ^ i)"
    by (rule sum.cong) (simp_all add: get_feedback_pattern_length)
  finally show ?thesis .
qed

lemma compute_feedback_index_range:
  "0 \<le> compute_feedback_index g a \<and> compute_feedback_index g a \<le> 242"
proof -
  have r: "0 \<le> color_code (get_feedback_pattern g a ! i) \<and> color_code (get_feedback_pattern g a ! i) \<le> 2" for i
    by (rule color_code_range)
  show ?thesis
    unfolding compute_feedback_index_eq
    using r[of 0] r[of 1] r[of 2] r[of 3] r[of 4]
    by (simp add: eval_nat_numeral)
qed

lemma lookahead_feedback_index_eq: "lookahead_feedback_index g a = compute_feedback_index g a"
  by (simp only: lookahead_feedback_index_def compute_feedback_index_def)

text \<open>
  Claim C4. For a guess and an answer of five upper-case letters, the number of positions that
  \<open>get_feedback_pattern\<close> marks Yellow and that hold a given letter of the guess is at most
  the number of positions of the answer that hold this letter and are not marked Green; and
  for the guess SPEED against the answer ABIDE exactly one position holding E is Yellow.
\<close>

theorem yellow_limited_by_unmatched:
  assumes "valid_word guess" and "valid_word answer"
  shows "yellow_count (get_feedback_pattern guess answer) guess c
           \<le> unmatched_count (get_feedback_pattern guess answer) answer c
         \<and> yellow_count (get_feedback_pattern ''SPEED'' ''ABIDE'') ''SPEED'' (CHR ''E'') = 1"
  using yellow_count_le[OF assms] speed_abide by simp

theorem yellow_limited_by_unmatched_witness:
  "valid_word ''SPEED'' \<and> valid_word ''ABIDE''
   \<and> yellow_count (get_feedback_pattern ''SPEED'' ''ABIDE'') ''SPEED'' (CHR ''E'')
        \<le> unmatched_count (get_feedback_pattern ''SPEED'' ''ABIDE'') ''ABIDE'' (CHR ''E'')
   \<and> get_feedback_pattern ''SPEED'' ''ABIDE'' = ''BBYBY''"
proof -
  have g: "valid_word ''SPEED''" and a: "valid_word ''ABIDE''"
    by (simp_all add: valid_word_def is_upper_letter_def letter_index_def)
  have p: "get_feedback_pattern ''SPEED'' ''ABIDE'' = ''BBYBY''"
    by code_simp
  from yellow_limited_by_unmatched[OF g a, of "CHR ''E''"] g a p show ?thesis
    by simp
qed

text \<open>
  Claim C5. For a guess and an answer of five upper-case letters, \<open>compute_feedback_index\<close>
  is the sum over the positions \<open>i\<close> of \<open>d\<^sub>i * 3 ^ i\<close>, where \<open>d\<^sub>i\<close> is the colour that
  \<open>get_feedback_pattern\<close> gives position \<open>i\<close> (Black 0, Yellow 1, Green 2); it lies in
  \<open>0..242\<close>; and \<open>lookahead_feedback_index\<close> returns the same value. (Being HOL functions, both
  encoders are deterministic.)
\<close>

theorem feedback_index_encodes_pattern:
  assumes "valid_word guess" and "valid_word answer"
  shows "compute_feedback_index guess answer
           = (\<Sum>i<5. color_code (get_feedback_pattern guess answer ! i) * 3 ^ i)
         \<and> 0 \<le> compute_feedback_index guess answer
         \<and> compute_feedback_index guess answer \<le> 242
         \<and> lookahead_feedback_index guess answer = compute_feedback_index guess answer"
  using compute_feedback_index_eq[of guess answer] compute_feedback_index_range[of guess answer]
    lookahead_feedback_index_eq[of guess answer]
  by simp

theorem feedback_index_encodes_pattern_witness:
  "valid_word ''CRANE'' \<and> valid_word ''TRACE''
   \<and> get_feedback_pattern ''CRANE'' ''TRACE'' = ''YGGBG''
   \<and> compute_feedback_index ''CRANE'' ''TRACE'' = 1 + 2 * 3 + 2 * 9 + 0 * 27 + 2 * 81
   \<and> lookahead_feedback_index ''CRANE'' ''TRACE'' = 187"
proof -
  have g: "valid_word ''CRANE''" and a: "valid_word ''TRACE''"
    by (simp_all add: valid_word_def is_upper_letter_def letter_index_def)
  have p: "get_feedback_pattern ''CRANE'' ''TRACE'' = ''YGGBG''"
    by code_simp
  from feedback_index_encodes_pattern[OF g a] g a p show ?thesis
    by (simp add: color_code_def eval_nat_numeral)
qed

section \<open>Properties of the dictionary filter\<close>

lemma filter_fold:
  "n \<le> length p \<Longrightarrow>
   fold (filter_step g r) [0..<n] p =
     map (\<lambda>i. if i < n \<and> \<not> is_eliminated (p ! i) \<and> get_feedback_pattern g (word (p ! i)) \<noteq> r
               then (p ! i)\<lparr>is_eliminated := True\<rparr> else p ! i) [0..<length p]"
proof (induction n)
  case 0
  show ?case by (simp add: map_nth)
next
  case (Suc n)
  let ?f = "\<lambda>m i. if i < m \<and> \<not> is_eliminated (p ! i) \<and> get_feedback_pattern g (word (p ! i)) \<noteq> r
               then (p ! i)\<lparr>is_eliminated := True\<rparr> else p ! i"
  from Suc have n: "n < length p" and IH: "fold (filter_step g r) [0..<n] p = map (?f n) [0..<length p]"
    by simp_all
  have at_n: "map (?f n) [0..<length p] ! n = p ! n"
    using n by simp
  have step: "filter_step g r n (map (?f n) [0..<length p]) = map (?f (Suc n)) [0..<length p]"
  proof (cases "\<not> is_eliminated (p ! n) \<and> get_feedback_pattern g (word (p ! n)) \<noteq> r")
    case True
    then have "filter_step g r n (map (?f n) [0..<length p])
             = (map (?f n) [0..<length p])[n := (p ! n)\<lparr>is_eliminated := True\<rparr>]"
      unfolding filter_step_def Let_def at_n by simp
    also have "\<dots> = map (?f (Suc n)) [0..<length p]"
      unfolding map_upt_update using True by (intro map_cong) (auto simp: less_Suc_eq)
    finally show ?thesis .
  next
    case False
    then have "filter_step g r n (map (?f n) [0..<length p]) = map (?f n) [0..<length p]"
      unfolding filter_step_def Let_def at_n by auto
    also have "\<dots> = map (?f (Suc n)) [0..<length p]"
      using False by (intro map_cong) (auto simp: less_Suc_eq)
    finally show ?thesis .
  qed
  show ?case
    by (simp only: fold_upt_Suc IH step)
qed

lemma filter_dictionary_nth:
  assumes "nat n \<le> length p" and "i < length p"
  shows "filter_dictionary_by_constraints p n g r ! i =
           (if i < nat n \<and> \<not> is_eliminated (p ! i) \<and> get_feedback_pattern g (word (p ! i)) \<noteq> r
            then (p ! i)\<lparr>is_eliminated := True\<rparr> else p ! i)"
  unfolding filter_dictionary_by_constraints_def filter_fold[OF assms(1)]
  using assms(2) by simp

lemma filter_dictionary_length:
  assumes "nat n \<le> length p"
  shows "length (filter_dictionary_by_constraints p n g r) = length p"
  unfolding filter_dictionary_by_constraints_def filter_fold[OF assms]
  by simp

text \<open>
  Claim C3. On a pool of \<open>n\<close> entries, \<open>filter_dictionary_by_constraints\<close> keeps the length
  of the array, and for every entry: it is eliminated afterwards exactly if it was eliminated
  before, or it is one of the first \<open>n\<close> entries and the feedback computed for the guess against
  its word differs from the feedback passed in. So a flag that was set is never cleared, a flag
  is newly set exactly for a non-eliminated entry whose computed feedback differs, and the entry
  afterwards is the entry before with at most its elimination flag changed.
\<close>

theorem filter_marks_exactly_mismatches:
  assumes "valid_pool pool n" and "valid_word guess" and "i < length pool"
  shows "length (filter_dictionary_by_constraints pool n guess actualFeedback) = length pool
       \<and> is_eliminated (filter_dictionary_by_constraints pool n guess actualFeedback ! i)
            = (is_eliminated (pool ! i) \<or>
               (i < nat n \<and> get_feedback_pattern guess (word (pool ! i)) \<noteq> actualFeedback))
       \<and> filter_dictionary_by_constraints pool n guess actualFeedback ! i
            = (pool ! i)\<lparr>is_eliminated :=
                 is_eliminated (filter_dictionary_by_constraints pool n guess actualFeedback ! i)\<rparr>"
proof -
  from assms(1) have c: "nat n \<le> length pool" by (simp add: valid_pool_def)
  show ?thesis
    using assms(3) by (auto simp: filter_dictionary_length[OF c] filter_dictionary_nth[OF c])
qed

lemma sample_pool_valid: "valid_pool sample_pool 3"
  by (simp add: valid_pool_def sample_pool_def mk_entry_def valid_word_def is_upper_letter_def
      letter_index_def)

lemma crane_valid: "valid_word ''CRANE''"
  by (simp add: valid_word_def is_upper_letter_def letter_index_def)

lemma crane_trace: "get_feedback_pattern ''CRANE'' ''TRACE'' = ''YGGBG''"
  by code_simp

lemma crane_abide: "get_feedback_pattern ''CRANE'' ''ABIDE'' = ''BBYBG''"
  by code_simp

theorem filter_marks_exactly_mismatches_witness:
  "valid_pool sample_pool 3 \<and> valid_word ''CRANE'' \<and> 1 < length sample_pool
   \<and> length (filter_dictionary_by_constraints sample_pool 3 ''CRANE'' ''YGGBG'') = 3
   \<and> is_eliminated (filter_dictionary_by_constraints sample_pool 3 ''CRANE'' ''YGGBG'' ! 1)
   \<and> filter_dictionary_by_constraints sample_pool 3 ''CRANE'' ''YGGBG'' ! 1
        = mk_entry ''ABIDE'' 2 True"
proof -
  have i: "1 < length sample_pool" by (simp add: sample_pool_def)
  have e: "sample_pool ! 1 = mk_entry ''ABIDE'' 2 False" by (simp add: sample_pool_def)
  have l: "length sample_pool = 3" by (simp add: sample_pool_def)
  note t = filter_marks_exactly_mismatches[OF sample_pool_valid crane_valid i, of "''YGGBG''",
      unfolded e l]
  from t have el: "is_eliminated (filter_dictionary_by_constraints sample_pool 3 ''CRANE'' ''YGGBG'' ! 1)"
    by (simp add: mk_entry_def crane_abide)
  from t have "filter_dictionary_by_constraints sample_pool 3 ''CRANE'' ''YGGBG'' ! 1
      = (mk_entry ''ABIDE'' 2 False)\<lparr>is_eliminated :=
          is_eliminated (filter_dictionary_by_constraints sample_pool 3 ''CRANE'' ''YGGBG'' ! 1)\<rparr>"
    by blast
  then have r: "filter_dictionary_by_constraints sample_pool 3 ''CRANE'' ''YGGBG'' ! 1 = mk_entry ''ABIDE'' 2 True"
    unfolding el[THEN eqTrueI] by (simp add: mk_entry_def)
  from t have "length (filter_dictionary_by_constraints sample_pool 3 ''CRANE'' ''YGGBG'') = 3"
    by blast
  with sample_pool_valid crane_valid i el r show ?thesis by blast
qed

text \<open>
  Claim C10. If the pattern passed to the filter is the one \<open>get_feedback_pattern\<close> produces for
  the guess against the word of a non-eliminated entry of the pool, that entry is still
  non-eliminated after the filter has run.
\<close>

theorem true_answer_survives_filter:
  assumes "valid_pool pool n" and "valid_word guess" and "i < nat n"
    and "\<not> is_eliminated (pool ! i)"
  shows "\<not> is_eliminated
           (filter_dictionary_by_constraints pool n guess
              (get_feedback_pattern guess (word (pool ! i))) ! i)"
proof -
  from assms(1) have c: "nat n \<le> length pool" by (simp add: valid_pool_def)
  with assms(3) have i: "i < length pool" by simp
  show ?thesis
    using assms(4) by (simp add: filter_dictionary_nth[OF c i])
qed

theorem true_answer_survives_filter_witness:
  "valid_pool sample_pool 3 \<and> valid_word ''CRANE'' \<and> (1::nat) < nat 3
   \<and> \<not> is_eliminated (sample_pool ! 1)
   \<and> \<not> is_eliminated (filter_dictionary_by_constraints sample_pool 3 ''CRANE'' ''BBYBG'' ! 1)"
proof -
  have i: "(1::nat) < nat 3" by simp
  have e: "\<not> is_eliminated (sample_pool ! 1)" by (simp add: sample_pool_def mk_entry_def)
  have w: "word (sample_pool ! 1) = ''ABIDE''" by (simp add: sample_pool_def mk_entry_def)
  from true_answer_survives_filter[OF sample_pool_valid crane_valid i e, unfolded w crane_abide]
    i e sample_pool_valid crane_valid
  show ?thesis by blast
qed

section \<open>Properties of the entropy engine\<close>

lemma bump_commute: "bump i (bump j c) = bump j (bump i c)"
  by (cases "i = j") (simp_all add: bump_def list_update_swap)

lemma fold_nth_take:
  "n \<le> length xs \<Longrightarrow> fold (\<lambda>i. f (xs ! i)) [0..<n] s = fold f (take n xs) s"
proof (induction n)
  case 0
  show ?case by simp
next
  case (Suc n)
  then have "n < length xs" by simp
  then show ?case
    using Suc by (simp add: take_Suc_conv_app_nth)
qed

lemma tally_step_bump: "tally_step g xs i = bump (pattern_of g (xs ! i))"
  by (rule ext) (simp add: tally_step_def bump_def pattern_of_def Let_def)

lemma tally_fold:
  "fold (tally_step g xs) [0..<length xs] c = fold (\<lambda>e. bump (pattern_of g e)) xs c"
proof -
  have "tally_step g xs = (\<lambda>i. bump (pattern_of g (xs ! i)))"
    by (rule ext) (rule tally_step_bump)
  then have "fold (tally_step g xs) [0..<length xs] c = fold (\<lambda>i. bump (pattern_of g (xs ! i))) [0..<length xs] c"
    by simp
  also have "\<dots> = fold (\<lambda>e. bump (pattern_of g e)) (take (length xs) xs) c"
    by (rule fold_nth_take) simp
  finally show ?thesis by simp
qed

lemma tally_permute:
  assumes "mset xs = mset ys"
  shows "fold (tally_step g xs) [0..<length xs] c = fold (tally_step g ys) [0..<length ys] c"
proof -
  have "fold (\<lambda>e. bump (pattern_of g e)) xs = fold (\<lambda>e. bump (pattern_of g e)) ys"
    by (rule fold_multiset_equiv[OF _ assms]) (simp add: fun_eq_iff bump_commute)
  then show ?thesis by (simp only: tally_fold)
qed

text \<open>
  Claim C8. \<open>calculate_entropy_internal\<close> returns 0 for an answer list of length 0 or 1, and
  returns the same value for two answer lists that are permutations of each other (equal as
  multisets). The second part holds because the histogram \<open>counts\<close> is the same; the
  floating-point sum of the source is computed from that histogram alone.
\<close>

theorem entropy_small_set_and_permutation:
  "(length answers \<le> 1 \<longrightarrow> calculate_entropy_internal guess answers (int (length answers)) = 0)
   \<and> (mset answers = mset answers' \<longrightarrow>
        calculate_entropy_internal guess answers (int (length answers))
          = calculate_entropy_internal guess answers' (int (length answers')))"
proof (intro conjI impI)
  assume "length answers \<le> 1"
  then show "calculate_entropy_internal guess answers (int (length answers)) = 0"
    by (simp add: calculate_entropy_internal_def)
next
  assume m: "mset answers = mset answers'"
  then have l: "length answers = length answers'" by (rule mset_eq_length)
  show "calculate_entropy_internal guess answers (int (length answers))
          = calculate_entropy_internal guess answers' (int (length answers'))"
    unfolding calculate_entropy_internal_def Let_def nat_int tally_permute[OF m]
    by (simp only: l)
qed

theorem entropy_small_set_and_permutation_witness:
  "length [entry_a] \<le> 1 \<and> calculate_entropy_internal ''CRANE'' [entry_a] 1 = 0
   \<and> mset [entry_a, entry_b] = mset [entry_b, entry_a]
   \<and> calculate_entropy_internal ''CRANE'' [entry_a, entry_b] 2
       = calculate_entropy_internal ''CRANE'' [entry_b, entry_a] 2"
proof -
  have m: "mset [entry_a, entry_b] = mset [entry_b, entry_a]" by simp
  from entropy_small_set_and_permutation[of "[entry_a]" "''CRANE''" "[entry_a]"]
  have 1: "calculate_entropy_internal ''CRANE'' [entry_a] 1 = 0" by simp
  from entropy_small_set_and_permutation[of "[entry_a, entry_b]" "''CRANE''" "[entry_b, entry_a]"] m
  have 2: "calculate_entropy_internal ''CRANE'' [entry_a, entry_b] 2
       = calculate_entropy_internal ''CRANE'' [entry_b, entry_a] 2" by simp
  from 1 2 m show ?thesis by simp
qed

lemma tally_cong_words:
  assumes "map word xs = map word ys" and "n \<le> length xs"
  shows "fold (tally_step g xs) [0..<n] c = fold (tally_step g ys) [0..<n] c"
proof (rule fold_cong[OF refl refl])
  fix i assume "i \<in> set [0..<n]"
  with assms(2) have i: "i < length xs" by simp
  from assms(1) have "length xs = length ys" by (rule map_eq_imp_length_eq)
  with i have "word (xs ! i) = map word xs ! i" "word (ys ! i) = map word ys ! i" by simp_all
  with assms(1) have "word (xs ! i) = word (ys ! i)" by simp
  then show "tally_step g xs i = tally_step g ys i"
    by (simp add: tally_step_def fun_eq_iff)
qed

lemma calculate_entropy_internal_cong_words:
  assumes "map word xs = map word ys" and "nat n \<le> length xs"
  shows "calculate_entropy_internal g xs n = calculate_entropy_internal g ys n"
  unfolding calculate_entropy_internal_def Let_def tally_cong_words[OF assms] ..

lemma count_valid_fold:
  "n \<le> length p \<Longrightarrow>
   fold (count_valid_step p) [0..<n] 0 = int (length (filter (\<lambda>e. \<not> is_eliminated e) (take n p)))"
  by (induction n) (simp_all add: count_valid_step_def take_Suc_conv_app_nth)

lemma collect_valid_fold:
  "fold (collect_valid_step p) [0..<n] [] = filter (\<lambda>i. \<not> is_eliminated (p ! i)) [0..<n]"
  by (induction n) (simp_all add: collect_valid_step_def)

lemma deref_valid:
  "n \<le> length p \<Longrightarrow>
   map (\<lambda>j. p ! j) (filter (\<lambda>i. \<not> is_eliminated (p ! i)) [0..<n])
     = filter (\<lambda>e. \<not> is_eliminated e) (take n p)"
  by (induction n) (simp_all add: take_Suc_conv_app_nth)

lemma recompute_fold:
  assumes pv: "\<forall>j\<in>set pv. j < length p" and vc: "nat vc \<le> length pv"
  shows "m \<le> length p \<Longrightarrow>
         fold (recompute_step pv vc) [0..<m] p = map (recomputed p pv vc m) [0..<length p]"
proof (induction m)
  case 0
  show ?case by (simp add: recomputed_def map_nth)
next
  case (Suc m)
  then have m: "m < length p" and IH: "fold (recompute_step pv vc) [0..<m] p = map (recomputed p pv vc m) [0..<length p]"
    by simp_all
  let ?pD = "map (recomputed p pv vc m) [0..<length p]"
  have at_m: "?pD ! m = p ! m" using m by (simp add: recomputed_def)
  have "map word (map (\<lambda>j. ?pD ! j) pv) = map word (map (\<lambda>j. p ! j) pv)"
    using pv by (simp add: recomputed_def)
  then have e: "calculate_entropy_internal w (map (\<lambda>j. ?pD ! j) pv) vc
              = calculate_entropy_internal w (map (\<lambda>j. p ! j) pv) vc" for w
    by (rule calculate_entropy_internal_cong_words) (simp add: vc)
  have "recompute_step pv vc m ?pD = ?pD[m := recomputed p pv vc (Suc m) m]"
    unfolding recompute_step_def at_m e by (simp add: recomputed_def)
  also have "\<dots> = map (recomputed p pv vc (Suc m)) [0..<length p]"
    unfolding map_upt_update by (rule map_cong) (auto simp: recomputed_def)
  finally show ?case
    by (simp only: fold_upt_Suc IH)
qed

lemma calculate_entropy_on_dictionary_nth:
  assumes ok: "malloc_ok" and n: "nat n \<le> length p"
    and some: "filter (\<lambda>e. \<not> is_eliminated e) (take (nat n) p) \<noteq> []"
    and i: "i < length p"
  shows "calculate_entropy_on_dictionary malloc_ok p n ! i =
           (if i < nat n
            then (p ! i)\<lparr>entropy := (if is_eliminated (p ! i) then 0
                    else calculate_entropy_internal (word (p ! i))
                           (filter (\<lambda>e. \<not> is_eliminated e) (take (nat n) p))
                           (int (length (filter (\<lambda>e. \<not> is_eliminated e) (take (nat n) p)))))\<rparr>
            else p ! i)"
proof -
  let ?valid = "filter (\<lambda>e. \<not> is_eliminated e) (take (nat n) p)"
  let ?pv = "filter (\<lambda>i. \<not> is_eliminated (p ! i)) [0..<nat n]"
  let ?vc = "int (length ?valid)"
  from some have vc0: "?vc \<noteq> 0" by simp
  have pv: "\<forall>j\<in>set ?pv. j < length p" using n by auto
  have d: "map (\<lambda>j. p ! j) ?pv = ?valid" by (rule deref_valid[OF n])
  then have "length ?pv = length ?valid" by (metis length_map)
  then have vc: "nat ?vc \<le> length ?pv" by simp
  have "calculate_entropy_on_dictionary malloc_ok p n = fold (recompute_step ?pv ?vc) [0..<nat n] p"
    unfolding calculate_entropy_on_dictionary_def Let_def count_valid_fold[OF n] collect_valid_fold
    using vc0 ok by simp
  also have "\<dots> = map (recomputed p ?pv ?vc (nat n)) [0..<length p]"
    by (rule recompute_fold[OF pv vc n])
  finally show ?thesis
    using i by (simp add: recomputed_def d)
qed

lemma recompute_fold_length: "length (fold (recompute_step pv vc) js p) = length p"
  by (induction js arbitrary: p) (simp_all add: recompute_step_def)

lemma calculate_entropy_on_dictionary_length:
  "length (calculate_entropy_on_dictionary malloc_ok p n) = length p"
  by (simp add: calculate_entropy_on_dictionary_def Let_def recompute_fold_length)

lemma calculate_entropy_on_dictionary_none_valid:
  assumes n: "nat n \<le> length p"
    and none: "filter (\<lambda>e. \<not> is_eliminated e) (take (nat n) p) = []"
  shows "calculate_entropy_on_dictionary malloc_ok p n = p"
  unfolding calculate_entropy_on_dictionary_def Let_def count_valid_fold[OF n]
  using none by simp

lemma calculate_entropy_on_dictionary_no_memory:
  "calculate_entropy_on_dictionary False p n = p"
  by (simp add: calculate_entropy_on_dictionary_def Let_def)

text \<open>
  Claim C6 fails as stated. On a pool whose only entry is eliminated and carries entropy 1 the
  function returns at \<open>validCount == 0\<close>, before the loop that writes the entropy fields: the
  eliminated entry keeps its entropy 1.
\<close>

theorem stale_entropy_when_all_eliminated:
  "valid_pool [mk_entry ''TRACE'' 1 True] 1
   \<and> calculate_entropy_on_dictionary True [mk_entry ''TRACE'' 1 True] 1 = [mk_entry ''TRACE'' 1 True]
   \<and> is_eliminated (calculate_entropy_on_dictionary True [mk_entry ''TRACE'' 1 True] 1 ! 0)
   \<and> entropy (calculate_entropy_on_dictionary True [mk_entry ''TRACE'' 1 True] 1 ! 0) \<noteq> 0"
  by (simp add: calculate_entropy_on_dictionary_def count_valid_step_def mk_entry_def
      valid_pool_def valid_word_def is_upper_letter_def letter_index_def)

text \<open>
  Claim C6, amended. If the pool has a non-eliminated entry among its first \<open>n\<close> and the
  temporary array was allocated, then after \<open>calculate_entropy_on_dictionary\<close> every eliminated
  entry has entropy 0, every non-eliminated entry has the entropy that
  \<open>calculate_entropy_internal\<close> gives its word against the list of all non-eliminated entries,
  and no other field has changed. If no entry is non-eliminated, or the allocation fails, the
  pool is returned unchanged.
\<close>

theorem batch_recompute_entropy:
  assumes "valid_pool pool n" and "i < nat n"
  shows "(malloc_ok \<and> valid_entries pool n \<noteq> [] \<longrightarrow>
            (is_eliminated (pool ! i) \<longrightarrow>
               entropy (calculate_entropy_on_dictionary malloc_ok pool n ! i) = 0)
          \<and> (\<not> is_eliminated (pool ! i) \<longrightarrow>
               entropy (calculate_entropy_on_dictionary malloc_ok pool n ! i)
                 = calculate_entropy_internal (word (pool ! i)) (valid_entries pool n)
                     (int (length (valid_entries pool n))))
          \<and> calculate_entropy_on_dictionary malloc_ok pool n ! i
               = (pool ! i)\<lparr>entropy := entropy (calculate_entropy_on_dictionary malloc_ok pool n ! i)\<rparr>)
       \<and> (\<not> malloc_ok \<or> valid_entries pool n = [] \<longrightarrow>
            calculate_entropy_on_dictionary malloc_ok pool n = pool)"
proof -
  from assms(1) have n: "nat n \<le> length pool" by (simp add: valid_pool_def)
  with assms(2) have i: "i < length pool" by simp
  show ?thesis
  proof (intro conjI impI)
    assume "\<not> malloc_ok \<or> valid_entries pool n = []"
    then show "calculate_entropy_on_dictionary malloc_ok pool n = pool"
      using calculate_entropy_on_dictionary_none_valid[OF n, of malloc_ok]
        calculate_entropy_on_dictionary_no_memory[of pool n]
      by (auto simp: valid_entries_def)
  next
    assume a: "malloc_ok \<and> valid_entries pool n \<noteq> []"
    then have ok: malloc_ok and some: "filter (\<lambda>e. \<not> is_eliminated e) (take (nat n) pool) \<noteq> []"
      by (simp_all add: valid_entries_def)
    note r = calculate_entropy_on_dictionary_nth[OF ok n some i]
    { assume "is_eliminated (pool ! i)"
      then show "entropy (calculate_entropy_on_dictionary malloc_ok pool n ! i) = 0"
        using assms(2) by (simp add: r) }
    { assume "\<not> is_eliminated (pool ! i)"
      then show "entropy (calculate_entropy_on_dictionary malloc_ok pool n ! i)
                 = calculate_entropy_internal (word (pool ! i)) (valid_entries pool n)
                     (int (length (valid_entries pool n)))"
        using assms(2) by (simp add: r valid_entries_def) }
    show "calculate_entropy_on_dictionary malloc_ok pool n ! i
               = (pool ! i)\<lparr>entropy := entropy (calculate_entropy_on_dictionary malloc_ok pool n ! i)\<rparr>"
      using assms(2) by (simp add: r)
  qed
qed

lemma sample_valid_entries: "valid_entries sample_pool 3 = [mk_entry ''TRACE'' 1 False, mk_entry ''ABIDE'' 2 False]"
  by (simp add: valid_entries_def sample_pool_def mk_entry_def)

theorem batch_recompute_entropy_witness:
  "valid_pool sample_pool 3 \<and> (2::nat) < nat 3 \<and> valid_entries sample_pool 3 \<noteq> []
   \<and> is_eliminated (sample_pool ! 2)
   \<and> entropy (calculate_entropy_on_dictionary True sample_pool 3 ! 2) = 0
   \<and> \<not> is_eliminated (sample_pool ! 0)
   \<and> entropy (calculate_entropy_on_dictionary True sample_pool 3 ! 0)
       = calculate_entropy_internal ''TRACE'' [mk_entry ''TRACE'' 1 False, mk_entry ''ABIDE'' 2 False] 2
   \<and> calculate_entropy_on_dictionary False sample_pool 3 = sample_pool"
proof -
  have i2: "(2::nat) < nat 3" and i0: "(0::nat) < nat 3" by simp_all
  have e2: "is_eliminated (sample_pool ! 2)" and e0: "\<not> is_eliminated (sample_pool ! 0)"
    and w0: "word (sample_pool ! 0) = ''TRACE''"
    by (simp_all add: sample_pool_def mk_entry_def)
  have v: "valid_entries sample_pool 3 \<noteq> []" by (simp add: sample_valid_entries)
  from batch_recompute_entropy[OF sample_pool_valid i2, of True] v e2
  have a: "entropy (calculate_entropy_on_dictionary True sample_pool 3 ! 2) = 0" by blast
  from batch_recompute_entropy[OF sample_pool_valid i0, of True] v e0
  have "entropy (calculate_entropy_on_dictionary True sample_pool 3 ! 0)
       = calculate_entropy_internal (word (sample_pool ! 0)) (valid_entries sample_pool 3)
           (int (length (valid_entries sample_pool 3)))" by blast
  then have b: "entropy (calculate_entropy_on_dictionary True sample_pool 3 ! 0)
       = calculate_entropy_internal ''TRACE'' [mk_entry ''TRACE'' 1 False, mk_entry ''ABIDE'' 2 False] 2"
    by (simp add: w0 sample_valid_entries)
  from batch_recompute_entropy[OF sample_pool_valid i0, of False]
  have c: "calculate_entropy_on_dictionary False sample_pool 3 = sample_pool" by blast
  from sample_pool_valid i2 v e2 a e0 b c show ?thesis by blast
qed

section \<open>Properties of the entropy comparator\<close>

lemma three_way_by_key:
  fixes key :: "'a \<Rightarrow> 'k::linorder"
  assumes "\<And>a b. (cmp a b < 0) = (key a < key b)" and "\<And>a b. (0 < cmp a b) = (key b < key a)"
  shows "three_way cmp"
proof -
  have z: "(cmp a b = 0) = (key a = key b)" for a b
    using assms(1)[of a b] assms(2)[of a b] by (metis less_irrefl less_linear)
  show ?thesis
    unfolding three_way_def z assms by auto
qed

lemma three_way_sym: "three_way cmp \<Longrightarrow> (cmp a b = 0) = (cmp b a = 0)"
  unfolding three_way_def by (metis less_irrefl less_linear)

lemma chain_lt: "(chain c1 c2 a b < 0) = (c1 a b < 0 \<or> (c1 a b = 0 \<and> c2 a b < 0))"
  by (simp add: chain_def)

lemma chain_gt: "(0 < chain c1 c2 a b) = (0 < c1 a b \<or> (c1 a b = 0 \<and> 0 < c2 a b))"
  by (simp add: chain_def)

lemma chain_eq: "(chain c1 c2 a b = 0) = (c1 a b = 0 \<and> c2 a b = 0)"
  by (simp add: chain_def)

lemma three_way_chain:
  assumes 1: "three_way c1" and 2: "three_way c2"
  shows "three_way (chain c1 c2)"
proof -
  note s1 = three_way_sym[OF 1]
  from 1 have r1: "\<And>a. c1 a a = 0" and a1: "\<And>a b. (c1 a b < 0) = (0 < c1 b a)"
    and t1: "\<And>a b c. c1 a b < 0 \<Longrightarrow> c1 b c < 0 \<Longrightarrow> c1 a c < 0"
    and e1: "\<And>a b c. c1 a b = 0 \<Longrightarrow> c1 b c = 0 \<Longrightarrow> c1 a c = 0"
    and le1: "\<And>a b c. c1 a b < 0 \<Longrightarrow> c1 b c = 0 \<Longrightarrow> c1 a c < 0"
    and el1: "\<And>a b c. c1 a b = 0 \<Longrightarrow> c1 b c < 0 \<Longrightarrow> c1 a c < 0"
    unfolding three_way_def by blast+
  from 2 have r2: "\<And>a. c2 a a = 0" and a2: "\<And>a b. (c2 a b < 0) = (0 < c2 b a)"
    and t2: "\<And>a b c. c2 a b < 0 \<Longrightarrow> c2 b c < 0 \<Longrightarrow> c2 a c < 0"
    and e2: "\<And>a b c. c2 a b = 0 \<Longrightarrow> c2 b c = 0 \<Longrightarrow> c2 a c = 0"
    and le2: "\<And>a b c. c2 a b < 0 \<Longrightarrow> c2 b c = 0 \<Longrightarrow> c2 a c < 0"
    and el2: "\<And>a b c. c2 a b = 0 \<Longrightarrow> c2 b c < 0 \<Longrightarrow> c2 a c < 0"
    unfolding three_way_def by blast+
  show ?thesis
    unfolding three_way_def chain_lt chain_gt chain_eq
  proof (intro conjI allI impI)
    fix a show "c1 a a = 0" by (rule r1)
    show "c2 a a = 0" by (rule r2)
  next
    fix a b show "(c1 a b < 0 \<or> c1 a b = 0 \<and> c2 a b < 0) = (0 < c1 b a \<or> c1 b a = 0 \<and> 0 < c2 b a)"
      using a1[of a b] a2[of a b] s1[of a b] by simp
  next
    fix a b c assume "(c1 a b < 0 \<or> c1 a b = 0 \<and> c2 a b < 0) \<and> (c1 b c < 0 \<or> c1 b c = 0 \<and> c2 b c < 0)"
    then show "c1 a c < 0 \<or> c1 a c = 0 \<and> c2 a c < 0"
      using t1[of a b c] le1[of a b c] el1[of a b c] e1[of a b c] t2[of a b c] by blast
  next
    fix a b c assume "(c1 a b = 0 \<and> c2 a b = 0) \<and> c1 b c = 0 \<and> c2 b c = 0"
    then show "c1 a c = 0" using e1[of a b c] by blast
  next
    fix a b c assume "(c1 a b = 0 \<and> c2 a b = 0) \<and> c1 b c = 0 \<and> c2 b c = 0"
    then show "c2 a c = 0" using e2[of a b c] by blast
  next
    fix a b c assume "(c1 a b < 0 \<or> c1 a b = 0 \<and> c2 a b < 0) \<and> c1 b c = 0 \<and> c2 b c = 0"
    then show "c1 a c < 0 \<or> c1 a c = 0 \<and> c2 a c < 0"
      using le1[of a b c] e1[of a b c] le2[of a b c] by blast
  next
    fix a b c assume "(c1 a b = 0 \<and> c2 a b = 0) \<and> (c1 b c < 0 \<or> c1 b c = 0 \<and> c2 b c < 0)"
    then show "c1 a c < 0 \<or> c1 a c = 0 \<and> c2 a c < 0"
      using el1[of a b c] e1[of a b c] el2[of a b c] by blast
  qed
qed

lemma three_way_on: "three_way c \<Longrightarrow> three_way (\<lambda>a b. c (f a) (f b))"
  unfolding three_way_def by blast

lemma upt4: "[0..<4] = [0, 1, 2, 3]"
  by (simp add: upt_rec)

lemma position_fold:
  "fold (position_step tab t1 t2) [0..<4] (4, 4) = (table_position tab t1, table_position tab t2)"
  by (simp add: upt4 position_step_def table_position_def)

lemma noun_type_diff_key:
  "noun_type_diff a b = table_position noun_order (noun_type a) - table_position noun_order (noun_type b)"
  by (simp add: noun_type_diff_def position_fold)

lemma verb_type_diff_key:
  "verb_type_diff a b = table_position verb_order (verb_type a) - table_position verb_order (verb_type b)"
  by (simp add: verb_type_diff_def position_fold)

lemma three_way_eliminated_diff: "three_way eliminated_diff"
  by (rule three_way_by_key[where key = is_eliminated]) (auto simp: eliminated_diff_def)

lemma three_way_entropy_diff: "three_way entropy_diff"
  by (rule three_way_by_key[where key = "\<lambda>e. - entropy e"]) (auto simp: entropy_diff_def)

lemma three_way_dup_diff: "three_way dup_diff"
  by (rule three_way_by_key[where key = contains_duplicate_letters]) (auto simp: dup_diff_def)

lemma three_way_rank_diff: "three_way rank_diff"
  by (rule three_way_by_key[where key = "\<lambda>e. - frequency_rank e"]) (auto simp: rank_diff_def)

lemma three_way_noun_type_diff: "three_way noun_type_diff"
  by (rule three_way_by_key[where key = "\<lambda>e. table_position noun_order (noun_type e)"])
     (auto simp: noun_type_diff_key)

lemma three_way_verb_type_diff: "three_way verb_type_diff"
  by (rule three_way_by_key[where key = "\<lambda>e. table_position verb_order (verb_type e)"])
     (auto simp: verb_type_diff_key)

lemma strncmp_refl: "strncmp a a n = 0"
  by (induction n arbitrary: a) simp_all

lemma strncmp_antisym: "(strncmp a b n < 0) = (0 < strncmp b a n)"
  by (induction n arbitrary: a b) auto

lemma strncmp_eq_sym: "(strncmp a b n = 0) = (strncmp b a n = 0)"
  by (induction n arbitrary: a b) auto

lemma strncmp_trans:
  "(strncmp a b n < 0 \<and> strncmp b c n < 0 \<longrightarrow> strncmp a c n < 0) \<and>
   (strncmp a b n = 0 \<and> strncmp b c n = 0 \<longrightarrow> strncmp a c n = 0) \<and>
   (strncmp a b n < 0 \<and> strncmp b c n = 0 \<longrightarrow> strncmp a c n < 0) \<and>
   (strncmp a b n = 0 \<and> strncmp b c n < 0 \<longrightarrow> strncmp a c n < 0)"
proof (induction n arbitrary: a b c)
  case 0
  show ?case by simp
next
  case (Suc n)
  note IH = Suc.IH[of "tl a" "tl b" "tl c"]
  show ?case
    using IH by (auto split: if_splits)
qed

lemma three_way_strncmp: "three_way (\<lambda>a b. strncmp a b n)"
  unfolding three_way_def
  using strncmp_refl strncmp_antisym strncmp_trans by blast

lemma tie_breaker_chain:
  "compare_with_entropy_tie_breaker =
     chain dup_diff (chain noun_type_diff (chain verb_type_diff (chain rank_diff
       (\<lambda>a b. strncmp (word a) (word b) 5))))"
  by (intro ext) (simp add: compare_with_entropy_tie_breaker_def chain_def Let_def)

lemma entropy_desc_chain:
  "compare_dictionary_entries_by_entropy_desc =
     chain eliminated_diff (chain entropy_diff compare_with_entropy_tie_breaker)"
  by (intro ext) (simp add: compare_dictionary_entries_by_entropy_desc_def chain_def Let_def)

lemma three_way_tie_breaker: "three_way compare_with_entropy_tie_breaker"
  unfolding tie_breaker_chain
  by (intro three_way_chain three_way_dup_diff three_way_noun_type_diff three_way_verb_type_diff
      three_way_rank_diff three_way_on[OF three_way_strncmp])

lemma three_way_entropy_desc: "three_way compare_dictionary_entries_by_entropy_desc"
  unfolding entropy_desc_chain
  by (intro three_way_chain three_way_eliminated_diff three_way_entropy_diff three_way_tie_breaker)

lemma entropy_desc_valid_first:
  "\<not> is_eliminated a \<Longrightarrow> is_eliminated b \<Longrightarrow>
   compare_dictionary_entries_by_entropy_desc a b < 0 \<and> 0 < compare_dictionary_entries_by_entropy_desc b a"
  by (simp add: compare_dictionary_entries_by_entropy_desc_def eliminated_diff_def)

text \<open>
  Claim C9. The relation "\<open>compare_dictionary_entries_by_entropy_desc\<close> is negative" is a
  strict weak ordering: irreflexive, asymmetric, transitive, and with a transitive
  incomparability relation; the comparator is consistent when its arguments are swapped; and a
  non-eliminated entry strictly precedes every eliminated entry, whatever their entropies.
  Entropies are real numbers here: the entropy values the program computes are never NaN.
\<close>

theorem entropy_desc_strict_weak_ordering:
  "\<not> precedes a a
   \<and> (precedes a b \<longrightarrow> \<not> precedes b a)
   \<and> (precedes a b \<and> precedes b c \<longrightarrow> precedes a c)
   \<and> (equally_ranked a b \<and> equally_ranked b c \<longrightarrow> equally_ranked a c)
   \<and> (precedes a b = (0 < compare_dictionary_entries_by_entropy_desc b a))
   \<and> (\<not> is_eliminated a \<and> is_eliminated b \<longrightarrow> precedes a b \<and> \<not> precedes b a)"
proof -
  let ?c = compare_dictionary_entries_by_entropy_desc
  from three_way_entropy_desc have r: "\<And>a. ?c a a = 0" and a: "\<And>a b. (?c a b < 0) = (0 < ?c b a)"
    and t: "\<And>a b c. ?c a b < 0 \<Longrightarrow> ?c b c < 0 \<Longrightarrow> ?c a c < 0"
    and e: "\<And>a b c. ?c a b = 0 \<Longrightarrow> ?c b c = 0 \<Longrightarrow> ?c a c = 0"
    unfolding three_way_def by blast+
  have q: "equally_ranked x y = (?c x y = 0)" for x y
    unfolding equally_ranked_def precedes_def using a[of x y] a[of y x] by auto
  have 1: "\<not> precedes a a" by (simp add: precedes_def r)
  have 2: "precedes a b \<longrightarrow> \<not> precedes b a"
    unfolding precedes_def using a[of a b] by auto
  have 3: "precedes a b \<and> precedes b c \<longrightarrow> precedes a c"
    unfolding precedes_def using t[of a b c] by blast
  have 4: "equally_ranked a b \<and> equally_ranked b c \<longrightarrow> equally_ranked a c"
    unfolding q using e[of a b c] by blast
  have 5: "precedes a b = (0 < ?c b a)"
    unfolding precedes_def by (rule a)
  have 6: "\<not> is_eliminated a \<and> is_eliminated b \<longrightarrow> precedes a b \<and> \<not> precedes b a"
    unfolding precedes_def using entropy_desc_valid_first[of a b] by auto
  from 1 2 3 4 5 6 show ?thesis by blast
qed

theorem entropy_desc_strict_weak_ordering_witness:
  "\<not> is_eliminated entry_a \<and> is_eliminated entry_c
   \<and> precedes entry_a entry_c \<and> precedes entry_c entry_d \<and> precedes entry_a entry_d
   \<and> \<not> precedes entry_c entry_a
   \<and> equally_ranked entry_d entry_d"
proof -
  have el: "\<not> is_eliminated entry_a \<and> is_eliminated entry_c"
    by (simp add: entry_a_def entry_c_def mk_entry_def)
  have cd: "precedes entry_c entry_d"
    by (simp add: precedes_def compare_dictionary_entries_by_entropy_desc_def eliminated_diff_def
        entropy_diff_def entry_c_def entry_d_def mk_entry_def)
  from entropy_desc_strict_weak_ordering[of entry_a entry_c entry_d] el
  have ac: "precedes entry_a entry_c" and ca: "\<not> precedes entry_c entry_a" by blast+
  from entropy_desc_strict_weak_ordering[of entry_a entry_c entry_d] ac cd
  have ad: "precedes entry_a entry_d" by blast
  from entropy_desc_strict_weak_ordering[of entry_d entry_d entry_d]
  have dd: "\<not> precedes entry_d entry_d" by blast
  then have "equally_ranked entry_d entry_d" by (simp add: equally_ranked_def)
  with entropy_desc_strict_weak_ordering[of entry_d entry_d entry_d]
  have "equally_ranked entry_d entry_d" by blast
  with el ac cd ad ca show ?thesis by blast
qed

section \<open>Properties of the look-ahead bonus\<close>

lemma hist_fold:
  "fold (\<lambda>x. bump (f x)) xs (replicate m 0) = map (\<lambda>k. int (length (filter (\<lambda>x. f x = k) xs))) [0..<m]"
proof (induction xs rule: rev_induct)
  case Nil
  show ?case by (simp add: map_replicate_const)
next
  case (snoc x xs)
  have "bump (f x) (map (\<lambda>k. int (length (filter (\<lambda>x. f x = k) xs))) [0..<m])
      = map (\<lambda>k. int (length (filter (\<lambda>x. f x = k) (xs @ [x])))) [0..<m]"
    unfolding bump_def map_upt_update
    by (rule map_cong) auto
  then show ?case by (simp add: snoc)
qed

lemma lookahead_index_nat:
  "(nat (lookahead_feedback_index g a) = k) = (lookahead_feedback_index g a = int k)"
  using compute_feedback_index_range[of g a] by (auto simp: lookahead_feedback_index_eq)

lemma bins_fold:
  assumes "nat n \<le> length view"
  shows "fold (bins_step cand view) [0..<nat n] (replicate 243 0) = bucket_sizes cand view n"
proof -
  let ?f = "\<lambda>e. nat (lookahead_feedback_index (word cand) (word e))"
  have "bins_step cand view = (\<lambda>i. bump (?f (view ! i)))"
    by (intro ext) (simp add: bins_step_def bump_def Let_def)
  then have "fold (bins_step cand view) [0..<nat n] (replicate 243 0)
      = fold (\<lambda>i. bump (?f (view ! i))) [0..<nat n] (replicate 243 0)" by simp
  also have "\<dots> = fold (\<lambda>e. bump (?f e)) (take (nat n) view) (replicate 243 0)"
    by (rule fold_nth_take[OF assms])
  also have "\<dots> = map (\<lambda>k. int (length (filter (\<lambda>e. ?f e = k) (take (nat n) view)))) [0..<243]"
    by (rule hist_fold)
  finally show ?thesis
    by (simp only: bucket_sizes_def lookahead_index_nat)
qed

lemma analyze_elems:
  "\<forall>b\<in>set bs. 0 \<le> b \<Longrightarrow> 0 \<le> m \<Longrightarrow>
   fold analyze_elem bs (s, c, m) = (s + sum_of_squares bs, c + singles bs, Max (insert m (set bs)))"
proof (induction bs arbitrary: s c m)
  case Nil
  show ?case by (simp add: sum_of_squares_def singles_def)
next
  case (Cons b bs)
  then have b: "0 \<le> b" and bs: "\<forall>b\<in>set bs. 0 \<le> b" by simp_all
  have mx: "Max (insert (max m b) (set bs)) = Max (insert m (set (b # bs)))"
  proof (cases "set bs = {}")
    case True
    then show ?thesis by (simp add: max.commute)
  next
    case False
    then show ?thesis by (simp add: max.assoc)
  qed
  show ?case
  proof (cases "b > 0")
    case True
    with Cons.prems(2) have m': "0 \<le> (if b > m then b else m)" by simp
    have "(if b > m then b else m) = max m b" by (simp add: max_def)
    with True show ?thesis
      using Cons.IH[OF bs m'] mx
      by (simp add: analyze_elem_def sum_of_squares_def singles_def)
  next
    case False
    with b have b0: "b = 0" by simp
    with Cons.prems(2) have "max m b = m" by simp
    with b0 show ?thesis
      using Cons.IH[OF bs Cons.prems(2)] mx
      by (simp add: analyze_elem_def sum_of_squares_def singles_def)
  qed
qed

lemma analyze_fold:
  assumes "\<forall>b\<in>set bs. 0 \<le> b" and "bs \<noteq> []"
  shows "fold (analyze_step bs) [0..<length bs] (0, 0, 0) = (sum_of_squares bs, singles bs, largest bs)"
proof -
  have "analyze_step bs = (\<lambda>i. analyze_elem (bs ! i))"
    by (intro ext) (simp add: analyze_step_def analyze_elem_def)
  then have "fold (analyze_step bs) [0..<length bs] (0, 0, 0) = fold (\<lambda>i. analyze_elem (bs ! i)) [0..<length bs] (0, 0, 0)"
    by simp
  also have "\<dots> = fold analyze_elem (take (length bs) bs) (0, 0, 0)"
    by (rule fold_nth_take) simp
  also have "\<dots> = (sum_of_squares bs, singles bs, Max (insert 0 (set bs)))"
    using analyze_elems[OF assms(1), of 0 0 0] by simp
  also have "Max (insert 0 (set bs)) = Max (set bs)"
  proof -
    from assms(2) obtain b where b: "b \<in> set bs" by (cases bs) auto
    with assms(1) have "0 \<le> b" by simp
    with b have "0 \<le> Max (set bs)" by (meson List.finite_set Max_ge order_trans)
    with assms(2) show ?thesis by (simp add: max_def)
  qed
  finally show ?thesis by (simp only: largest_def)
qed

lemma bucket_sizes_props:
  "length (bucket_sizes cand view n) = 243" "\<forall>b\<in>set (bucket_sizes cand view n). 0 \<le> b"
  "bucket_sizes cand view n \<noteq> []"
  by (auto simp: bucket_sizes_def)

lemma int32_wrap_id: "is_int32 x \<Longrightarrow> int32_wrap x = x"
  by (simp add: is_int32_def int32_wrap_def)

lemma guesses_remaining_turn:
  assumes "1 \<le> turn" and "is_int32 turn"
  shows "int32_wrap (MAX_GUESSES - turn) = 6 - turn"
proof -
  from assms have "is_int32 (6 - turn)" by (simp add: is_int32_def)
  then show ?thesis by (simp add: int32_wrap_id)
qed

lemma calculate_lookahead_bonus_eq:
  assumes "1 < valid_count" and "nat valid_count \<le> length view"
    and "1 \<le> turn" and "is_int32 turn"
  shows "calculate_lookahead_bonus cand view valid_count turn
       = lookahead_total cand view valid_count
           (sniper_bonus (bucket_sizes cand view valid_count) turn) turn"
proof -
  let ?bs = "bucket_sizes cand view valid_count"
  have a: "fold (analyze_step ?bs) [0..<243] (0, 0, 0) = (sum_of_squares ?bs, singles ?bs, largest ?bs)"
    using analyze_fold[OF bucket_sizes_props(2,3), of cand view valid_count]
    by (simp only: bucket_sizes_props(1))
  from assms(3) have t: "(1 < turn) = (turn \<noteq> 1)" by auto
  show ?thesis
    unfolding calculate_lookahead_bonus_def Let_def bins_fold[OF assms(2)] a
      guesses_remaining_turn[OF assms(3,4)] t
    using assms(1)
    by (simp add: lookahead_total_def sniper_bonus_def power2_eq_square Let_def)
qed

lemma two_answers_buckets:
  "bucket_sizes entry_a two_answers 2 = (replicate 243 0)[242 := 1, 171 := 1]"
  by code_simp

lemma two_answers_stats:
  "sum_of_squares ((replicate 243 0)[242 := 1, 171 := 1]) = 2"
  "singles ((replicate 243 0)[242 := 1, 171 := 1]) = 2"
  "largest ((replicate 243 0)[242 := 1, 171 := 1]) = 1"
  by code_simp+

lemma two_answers_valid: "valid_pool two_answers 2" "valid_word (word entry_a)"
  by (simp_all add: valid_pool_def two_answers_def entry_a_def entry_b_def mk_entry_def valid_word_def
      is_upper_letter_def letter_index_def)

text \<open>
  Claim C7. For \<open>valid_count > 1\<close> answers present in the view and a turn counted from 1 (the
  callers pass 1 to 6, and the turn after the one simulated), \<open>calculate_lookahead_bonus\<close> is
  \<open>safety + sniperBonus\<close> with \<open>safety = log 10 (valid_count\<^sup>2 / sum of the squared bucket sizes)\<close>
  over the 243-bucket feedback histogram and \<open>sniperBonus = 0\<close> on turn 1, 0.04 times the number
  of buckets of size one otherwise; minus 100 if the largest bucket exceeds \<open>6 - turn\<close>;
  otherwise minus 5 if \<open>valid_count > 4\<close> and the largest bucket exceeds
  \<open>valid_count div 2 + 1\<close>. The result is a function of the four arguments alone.
\<close>

theorem lookahead_bonus_formula:
  assumes "1 < valid_count" and "valid_pool answers valid_count" and "valid_word (word candidate)"
    and "1 \<le> turn" and "is_int32 turn"
  shows "calculate_lookahead_bonus candidate answers valid_count turn
       = lookahead_total candidate answers valid_count
           (sniper_bonus (bucket_sizes candidate answers valid_count) turn) turn"
proof -
  from assms(2) have "nat valid_count \<le> length answers" by (simp add: valid_pool_def)
  with assms(1) show ?thesis using assms(4,5) by (rule calculate_lookahead_bonus_eq)
qed

theorem lookahead_bonus_formula_witness:
  "(1::int) < 2 \<and> valid_pool two_answers 2 \<and> valid_word (word entry_a)
   \<and> (1::int) \<le> 1 \<and> is_int32 1 \<and> (1::int) \<le> 3 \<and> is_int32 3 \<and> (1::int) \<le> 6 \<and> is_int32 6
   \<and> singles (bucket_sizes entry_a two_answers 2) = 2
   \<and> calculate_lookahead_bonus entry_a two_answers 2 1 = log 10 2
   \<and> calculate_lookahead_bonus entry_a two_answers 2 3 = log 10 2 + 0.08
   \<and> calculate_lookahead_bonus entry_a two_answers 2 6 = log 10 2 + 0.08 - 100"
proof -
  have c: "(1::int) < 2" by simp
  have t: "(1::int) \<le> 1" "is_int32 1" "(1::int) \<le> 3" "is_int32 3" "(1::int) \<le> 6" "is_int32 6"
    by (simp_all add: is_int32_def)
  have s: "singles (bucket_sizes entry_a two_answers 2) = 2"
    by (simp only: two_answers_buckets two_answers_stats)
  have 1: "calculate_lookahead_bonus entry_a two_answers 2 1 = log 10 2"
    unfolding lookahead_bonus_formula[OF c two_answers_valid t(1,2)]
      lookahead_total_def sniper_bonus_def two_answers_buckets two_answers_stats Let_def
    by simp
  have 3: "calculate_lookahead_bonus entry_a two_answers 2 3 = log 10 2 + 0.08"
    unfolding lookahead_bonus_formula[OF c two_answers_valid t(3,4)]
      lookahead_total_def sniper_bonus_def two_answers_buckets two_answers_stats Let_def
    by simp
  have 6: "calculate_lookahead_bonus entry_a two_answers 2 6 = log 10 2 + 0.08 - 100"
    unfolding lookahead_bonus_formula[OF c two_answers_valid t(5,6)]
      lookahead_total_def sniper_bonus_def two_answers_buckets two_answers_stats Let_def
    by simp
  from c two_answers_valid t s 1 3 6 show ?thesis by simp
qed

section \<open>Properties of the decision pipeline\<close>

lemma fold_fixed: "(\<And>i. i \<in> set js \<Longrightarrow> f i s = s) \<Longrightarrow> fold f js s = s"
  by (induction js) simp_all

lemma fold_inv:
  "P s \<Longrightarrow> (\<And>i s. i \<in> set js \<Longrightarrow> P s \<Longrightarrow> P (f i s)) \<Longrightarrow> P (fold f js s)"
  by (induction js arbitrary: s) simp_all

lemma nth_in_take: "i < n \<Longrightarrow> n \<le> length xs \<Longrightarrow> xs ! i \<in> set (take n xs)"
  by (metis in_set_conv_nth length_take min.absorb2 nth_take)

lemma from_view_simps [simp]:
  "from_view view n None" "from_view view n (Some c) = (c \<in> set (take (nat n) view))"
  by (simp_all add: from_view_def)

lemma coverage_stage_from_view:
  assumes "nat n \<le> length rs"
  shows "from_view rs n (coverage_stage rs n cfg mrc turn)"
proof (cases "prioritize_turn2_coverage cfg \<and> turn = 2")
  case False
  then show ?thesis by (auto simp: coverage_stage_def)
next
  case True
  let ?lim = "if n < 100 then n else 100"
  have "from_view rs n (snd (fold (coverage_step cfg mrc turn rs) [0..<nat ?lim] (- 1, None)))"
  proof (rule fold_inv[where P = "\<lambda>s. from_view rs n (snd s)"])
    show "from_view rs n (snd (- 1, None))" by simp
  next
    fix i and s :: "int \<times> dictionary_entry option"
    assume "i \<in> set [0..<nat ?lim]" and P: "from_view rs n (snd s)"
    then have "i < nat n" by (auto split: if_splits)
    then have "rs ! i \<in> set (take (nat n) rs)" using assms by (rule nth_in_take)
    with P show "from_view rs n (snd (coverage_step cfg mrc turn rs i s))"
      by (cases s) (simp add: coverage_step_def Let_def)
  qed
  with True show ?thesis by (simp add: coverage_stage_def Let_def)
qed

lemma scored_fold_from_view:
  assumes "nat n \<le> length es" and "m \<le> nat n"
  shows "from_view es n (snd (snd (fold (scored_step sc cfg mrc turn es) [0..<m] (- 1, - 1, None))))"
proof (rule fold_inv[where P = "\<lambda>s. from_view es n (snd (snd s))"])
  show "from_view es n (snd (snd (- 1, - 1, None)))" by simp
next
  fix i and s :: "int \<times> real \<times> dictionary_entry option"
  assume "i \<in> set [0..<m]" and P: "from_view es n (snd (snd s))"
  with assms(2) have "i < nat n" by simp
  then have "es ! i \<in> set (take (nat n) es)" using assms(1) by (rule nth_in_take)
  with P show "from_view es n (snd (snd (scored_step sc cfg mrc turn es i s)))"
    by (cases s) (simp add: scored_step_def Let_def)
qed

lemma scan30: "nat (if n < 30 then n else 30) \<le> nat n"
  by (cases "n < 30") (simp_all add: nat_mono)

lemma contingency_stage_from_view:
  assumes "nat n \<le> length es"
  shows "from_view es n (contingency_stage es n cfg mrc turn)"
  using scored_fold_from_view[OF assms scan30]
  by (simp add: contingency_stage_def Let_def)

lemma early_bias_stage_from_view:
  assumes "nat n \<le> length es"
  shows "from_view es n (early_bias_stage es n cfg mrc turn)"
  using scored_fold_from_view[OF assms scan30]
  by (simp add: early_bias_stage_def Let_def)

lemma heatmap_stage_from_view:
  assumes "nat n \<le> length es"
  shows "from_view es n (heatmap_stage es n cfg mrc vc turn)"
proof (cases "use_heatmap_priority cfg \<and> vc > 2")
  case False
  then show ?thesis by (auto simp: heatmap_stage_def)
next
  case True
  have "from_view es n (fst (snd (fold (heatmap_step hm cfg mrc turn es) [0..<nat n] (- 1, None, 0))))" for hm
  proof (rule fold_inv[where P = "\<lambda>s. from_view es n (fst (snd s))"])
    show "from_view es n (fst (snd (- 1, None, 0)))" by simp
  next
    fix i and s :: "int \<times> dictionary_entry option \<times> int"
    assume "i \<in> set [0..<nat n]" and P: "from_view es n (fst (snd s))"
    then have "i < nat n" by simp
    then have "es ! i \<in> set (take (nat n) es)" using assms by (rule nth_in_take)
    with P show "from_view es n (fst (snd (heatmap_step hm cfg mrc turn es i s)))"
      by (cases s) (simp add: heatmap_step_def Let_def)
  qed
  with True show ?thesis by (simp add: heatmap_stage_def Let_def)
qed

lemma main_loop_from_view:
  assumes "0 < n" and "nat n \<le> length es"
  shows "main_loop es rs n cfg mrc vc turn \<in> set (take (nat n) es)"
proof -
  have 0: "es ! 0 \<in> set (take (nat n) es)"
    using assms by (intro nth_in_take) simp_all
  have "from_view es n (fst (snd (fold (main_loop_step es rs cfg mrc vc turn mx) [0..<nat n] (- 1000, None, 0))))" for mx
  proof (rule fold_inv[where P = "\<lambda>s. from_view es n (fst (snd s))"])
    show "from_view es n (fst (snd (- 1000, None, 0)))" by simp
  next
    fix i and s :: "real \<times> dictionary_entry option \<times> int"
    assume "i \<in> set [0..<nat n]" and P: "from_view es n (fst (snd s))"
    then have "i < nat n" by simp
    then have "es ! i \<in> set (take (nat n) es)" using assms(2) by (rule nth_in_take)
    with P show "from_view es n (fst (snd (main_loop_step es rs cfg mrc vc turn mx i s)))"
      by (cases s) (simp add: main_loop_step_def Let_def)
  qed
  then have "from_view es n (fst (snd (fold (main_loop_step es rs cfg mrc vc turn
                (if look_ahead_depth cfg > 0 \<and> \<not> vc \<le> 20 then PRUNE_COUNT else n))
                [0..<nat n] (- 1000, None, 0))))"
    (is "from_view es n ?r") .
  with 0 have "(case ?r of None \<Rightarrow> es ! 0 | Some cand \<Rightarrow> cand) \<in> set (take (nat n) es)"
    by (cases ?r) simp_all
  then show ?thesis
    by (simp only: main_loop_def Let_def)
qed

lemma rank_tie_break_from_view:
  assumes "0 < n" and "nat n \<le> length rs"
  shows "rank_tie_break b rs n cfg mrc vc turn = b
       \<or> rank_tie_break b rs n cfg mrc vc turn \<in> set (take (nat n) rs)"
proof -
  have 0: "rs ! 0 \<in> set (take (nat n) rs)"
    using assms by (intro nth_in_take) simp_all
  have "(case find P [0..<nat n] of None \<Rightarrow> rs ! 0 | Some i \<Rightarrow> rs ! i) \<in> set (take (nat n) rs)" for P
  proof (cases "find P [0..<nat n]")
    case None
    with 0 show ?thesis by simp
  next
    case (Some i)
    then have "i < nat n" by (auto simp: find_Some_iff)
    then have "rs ! i \<in> set (take (nat n) rs)" using assms(2) by (rule nth_in_take)
    with Some show ?thesis by simp
  qed
  then show ?thesis
    by (simp add: rank_tie_break_def Let_def)
qed

lemma get_smart_hybrid_guess_from_views:
  assumes "0 < n" and "nat n \<le> length es" and "nat n \<le> length rs"
  shows "\<exists>e. get_smart_hybrid_guess es rs n cfg mrc vc turn = Some e
            \<and> (e \<in> set (take (nat n) es) \<or> e \<in> set (take (nat n) rs))"
  using assms(1) coverage_stage_from_view[OF assms(3), of cfg mrc turn]
    contingency_stage_from_view[OF assms(2), of cfg mrc turn]
    early_bias_stage_from_view[OF assms(2), of cfg mrc turn]
    heatmap_stage_from_view[OF assms(2), of cfg mrc vc turn]
    main_loop_from_view[OF assms(1,2), of rs cfg mrc vc turn]
    rank_tie_break_from_view[OF assms(1,3), of "main_loop es rs n cfg mrc vc turn" cfg mrc vc turn]
  by (auto simp: get_smart_hybrid_guess_def split: option.splits)

lemma standard_filters_main_loop_pass:
  "standard_filters cfg mrc turn c \<Longrightarrow> main_loop_pass cfg mrc vc turn c"
  by (auto simp: standard_filters_def main_loop_pass_def Let_def split: if_splits)

lemma rank_pass_main_loop_pass:
  "\<not> vc \<le> 20 \<Longrightarrow> rank_pass cfg mrc vc turn c = main_loop_pass cfg mrc vc turn c"
  by (simp add: rank_pass_def main_loop_pass_def Let_def)

lemma no_candidate_passes_nth:
  "no_candidate_passes cfg mrc vc turn view n \<Longrightarrow> nat n \<le> length view \<Longrightarrow> i < nat n \<Longrightarrow>
   \<not> main_loop_pass cfg mrc vc turn (view ! i)"
  by (simp add: no_candidate_passes_def list_all_length)

lemma coverage_stage_none:
  assumes "no_candidate_passes cfg mrc vc turn rs n" and "nat n \<le> length rs"
  shows "coverage_stage rs n cfg mrc turn = None"
proof -
  have f: "fold (coverage_step cfg mrc turn rs) [0..<nat (if n < 100 then n else 100)] (- 1, None) = (- 1, None)"
  proof (rule fold_fixed)
    fix i assume "i \<in> set [0..<nat (if n < 100 then n else 100)]"
    then have "i < nat n" by (auto split: if_splits)
    from no_candidate_passes_nth[OF assms this] have "\<not> standard_filters cfg mrc turn (rs ! i)"
      using standard_filters_main_loop_pass by blast
    then show "coverage_step cfg mrc turn rs i (- 1, None) = (- 1, None)"
      by (simp add: coverage_step_def Let_def)
  qed
  show ?thesis unfolding coverage_stage_def Let_def f by simp
qed

lemma scored_fold_none:
  assumes "no_candidate_passes cfg mrc vc turn es n" and "nat n \<le> length es" and "m \<le> nat n"
  shows "fold (scored_step sc cfg mrc turn es) [0..<m] (- 1, - 1, None) = (- 1, - 1, None)"
proof (rule fold_fixed)
  fix i assume "i \<in> set [0..<m]"
  with assms(3) have "i < nat n" by simp
  from no_candidate_passes_nth[OF assms(1,2) this] have "\<not> standard_filters cfg mrc turn (es ! i)"
    using standard_filters_main_loop_pass by blast
  then show "scored_step sc cfg mrc turn es i (- 1, - 1, None) = (- 1, - 1, None)"
    by (simp add: scored_step_def Let_def)
qed

lemma contingency_stage_none:
  assumes "no_candidate_passes cfg mrc vc turn es n" and "nat n \<le> length es"
  shows "contingency_stage es n cfg mrc turn = None"
  unfolding contingency_stage_def Let_def scored_fold_none[OF assms scan30] by simp

lemma early_bias_stage_none:
  assumes "no_candidate_passes cfg mrc vc turn es n" and "nat n \<le> length es"
  shows "early_bias_stage es n cfg mrc turn = None"
  unfolding early_bias_stage_def Let_def scored_fold_none[OF assms scan30] by simp

lemma heatmap_stage_none:
  assumes "no_candidate_passes cfg mrc vc turn es n" and "nat n \<le> length es"
  shows "heatmap_stage es n cfg mrc vc turn = None"
proof -
  have f: "fold (heatmap_step hm cfg mrc turn es) [0..<nat n] (- 1, None, 0) = (- 1, None, 0)" for hm
  proof (rule fold_fixed)
    fix i assume "i \<in> set [0..<nat n]"
    then have "i < nat n" by simp
    from no_candidate_passes_nth[OF assms this] have "\<not> standard_filters cfg mrc turn (es ! i)"
      using standard_filters_main_loop_pass by blast
    then show "heatmap_step hm cfg mrc turn es i (- 1, None, 0) = (- 1, None, 0)"
      by (simp add: heatmap_step_def Let_def)
  qed
  show ?thesis unfolding heatmap_stage_def Let_def f by simp
qed

lemma main_loop_none:
  assumes "no_candidate_passes cfg mrc vc turn es n" and "nat n \<le> length es"
  shows "main_loop es rs n cfg mrc vc turn = es ! 0"
proof -
  have f: "fold (main_loop_step es rs cfg mrc vc turn mx) [0..<nat n] (- 1000, None, 0) = (- 1000, None, 0)" for mx
  proof (rule fold_fixed)
    fix i assume "i \<in> set [0..<nat n]"
    then have "i < nat n" by simp
    from no_candidate_passes_nth[OF assms this]
    show "main_loop_step es rs cfg mrc vc turn mx i (- 1000, None, 0) = (- 1000, None, 0)"
      by (simp add: main_loop_step_def Let_def)
  qed
  show ?thesis unfolding main_loop_def Let_def f by simp
qed

lemma rank_tie_break_none:
  assumes "no_candidate_passes cfg mrc vc turn rs n" and "nat n \<le> length rs"
  shows "rank_tie_break b rs n cfg mrc vc turn =
           (if rank_priority_tolerance cfg > 0 \<and> vc > 20
               \<and> double_sub (entropy b) (entropy (rs ! 0)) < rank_priority_tolerance cfg
            then rs ! 0 else b)"
proof (cases "vc \<le> 20")
  case True
  then show ?thesis by (simp add: rank_tie_break_def Let_def)
next
  case False
  have "find (\<lambda>i. rank_pass cfg mrc vc turn (rs ! i)) [0..<nat n] = None"
    unfolding find_None_iff rank_pass_main_loop_pass[OF False]
    using no_candidate_passes_nth[OF assms] by simp
  with False show ?thesis by (simp add: rank_tie_break_def Let_def)
qed

lemma get_smart_hybrid_guess_fallback:
  assumes "0 < n" and "nat n \<le> length es" and "nat n \<le> length rs"
    and "no_candidate_passes cfg mrc vc turn es n" and "no_candidate_passes cfg mrc vc turn rs n"
  shows "get_smart_hybrid_guess es rs n cfg mrc vc turn =
           Some (if rank_priority_tolerance cfg > 0 \<and> vc > 20
                    \<and> double_sub (entropy (es ! 0)) (entropy (rs ! 0)) < rank_priority_tolerance cfg
                 then rs ! 0 else es ! 0)"
  using assms(1)
  by (simp add: get_smart_hybrid_guess_def coverage_stage_none[OF assms(5,3)]
      contingency_stage_none[OF assms(4,2)] early_bias_stage_none[OF assms(4,2)]
      heatmap_stage_none[OF assms(4,2)] main_loop_none[OF assms(4,2)]
      rank_tie_break_none[OF assms(5,3)])

lemma get_smart_hybrid_guess_none_iff:
  "(get_smart_hybrid_guess es rs n cfg mrc vc turn = None) = (n = 0)"
  by (simp add: get_smart_hybrid_guess_def split: option.splits)

lemma floor_log2:
  assumes "2 powr real_of_int e \<le> x" and "x < 2 powr real_of_int (e + 1)"
  shows "\<lfloor>log 2 x\<rfloor> = e"
proof -
  have "(0::real) < 2 powr real_of_int e" by simp
  with assms(1) have pos: "0 < x" by linarith
  have 1: "real_of_int e \<le> log 2 x"
    using assms(1) pos by (simp add: le_log_iff)
  have 2: "log 2 x < real_of_int (e + 1)"
    using assms(2) pos by (simp add: log_less_iff)
  from 1 2 show ?thesis by (simp add: floor_eq_iff)
qed

lemma round_half_even_int: "round_half_even (real_of_int n) = n"
  by (simp add: round_half_even_def)

lemma pow_54: "2 powr real_of_int (- 54) = 1 / 18014398509481984"
  by (simp add: powr_minus)

lemma round_to_double_at:
  assumes "x \<noteq> 0" and "binade x = e" and "2 powr real_of_int (e - 52) = u"
    and "x / u = q" and "round_half_even q = n"
  shows "round_to_double x = real_of_int n * u"
  using assms by (simp add: round_to_double_def Let_def)

lemma binade_quarter: "binade (1 / 4) = - 2"
proof -
  have "\<lfloor>log 2 (1 / 4 :: real)\<rfloor> = - 2"
    by (rule floor_log2) (simp_all add: powr_minus)
  then show ?thesis by (simp add: binade_def)
qed

lemma round_quarter: "round_to_double (1 / 4) = 1 / 4"
proof -
  have "round_to_double (1 / 4) = real_of_int 4503599627370496 * (1 / 18014398509481984)"
  proof (rule round_to_double_at)
    show "(1 / 4 :: real) \<noteq> 0" by simp
    show "binade (1 / 4) = - 2" by (rule binade_quarter)
    show "2 powr real_of_int (- 2 - 52) = 1 / 18014398509481984" using pow_54 by simp
    show "(1 / 4) / (1 / 18014398509481984) = real_of_int 4503599627370496" by simp
    show "round_half_even (real_of_int 4503599627370496) = 4503599627370496"
      by (rule round_half_even_int)
  qed
  then show ?thesis by simp
qed

lemma double_sub_quarter: "double_sub 3 2.75 = 0.25" "double_sub 3 (11 / 4) = 1 / 4"
  using round_quarter by (simp_all add: double_sub_def)

lemma binade_close: "binade (1 / 2 - 1 / 2 ^ 60) = - 2"
proof -
  have "\<lfloor>log 2 (1 / 2 - 1 / 2 ^ 60 :: real)\<rfloor> = - 2"
    by (rule floor_log2) (simp_all add: powr_minus)
  then show ?thesis by (simp add: binade_def)
qed

lemma round_close: "round_to_double (1 / 2 - 1 / 2 ^ 60) = 1 / 2"
proof -
  have f: "\<lfloor>576460752303423487 / 64 :: real\<rfloor> = 9007199254740991"
    by simp
  have "round_to_double (1 / 2 - 1 / 2 ^ 60) = real_of_int 9007199254740992 * (1 / 18014398509481984)"
  proof (rule round_to_double_at)
    show "(1 / 2 - 1 / 2 ^ 60 :: real) \<noteq> 0" by simp
    show "binade (1 / 2 - 1 / 2 ^ 60) = - 2" by (rule binade_close)
    show "2 powr real_of_int (- 2 - 52) = 1 / 18014398509481984" using pow_54 by simp
    show "(1 / 2 - 1 / 2 ^ 60) / (1 / 18014398509481984) = (576460752303423487 / 64 :: real)" by simp
    show "round_half_even (576460752303423487 / 64) = 9007199254740992"
      unfolding round_half_even_def Let_def f by simp
  qed
  then show ?thesis by simp
qed

lemma double_sub_close:
  "double_sub (1 / 2) (1 / 2 ^ 60) = 1 / 2"
  "double_sub (1 / 2) (1 / 1152921504606846976) = 1 / 2"
  using round_close by (simp_all add: double_sub_def)

lemma plural_views_length:
  "length (plural_entropy_view h1 h2 h) = 21" "length (plural_rank_view h1 h2 h) = 21"
  by (simp_all add: plural_entropy_view_def plural_rank_view_def plural_tail_def)

lemma plural_views_fail:
  "no_candidate_passes legacy_reborn (replicate 26 0) 21 3 (plural_entropy_view 3 2.75 2) 21"
  "no_candidate_passes legacy_reborn (replicate 26 0) 21 3 (plural_rank_view 3 2.75 2) 21"
  by code_simp+

lemma plural_views_valid:
  "valid_pool (plural_entropy_view 3 2.75 2) 21" "valid_pool (plural_rank_view 3 2.75 2) 21"
  by code_simp+

lemma plural_views_heads:
  "plural_entropy_view h1 h2 h ! 0 = plural_entry ''CAKES'' h1 20"
  "plural_rank_view h1 h2 h ! 0 = plural_entry ''BAKES'' h2 90"
  by (simp_all add: plural_entropy_view_def plural_rank_view_def)

text \<open>
  Claim C2 fails as stated. With the configuration "Legacy Reborn" (linguistic filter, rank
  tolerance 0.5), 21 valid answers that are all plural nouns, and turn 3, no candidate passes
  the filters; the main loop falls back to the head of the entropy view (CAKES, entropy 3), but
  the rank tie-break then replaces it by the head of the rank view (BAKES, entropy 2.75): the
  difference of the two doubles is 0.25, less than the tolerance.
\<close>

theorem fallback_may_be_rank_view_head:
  "valid_pool (plural_entropy_view 3 2.75 2) 21 \<and> valid_pool (plural_rank_view 3 2.75 2) 21
   \<and> no_candidate_passes legacy_reborn (replicate 26 0) 21 3 (plural_entropy_view 3 2.75 2) 21
   \<and> no_candidate_passes legacy_reborn (replicate 26 0) 21 3 (plural_rank_view 3 2.75 2) 21
   \<and> double_sub 3 2.75 = 0.25
   \<and> get_smart_hybrid_guess (plural_entropy_view 3 2.75 2) (plural_rank_view 3 2.75 2) 21
         legacy_reborn (replicate 26 0) 21 3
       = Some (plural_entry ''BAKES'' 2.75 90)
   \<and> plural_entropy_view 3 2.75 2 ! 0 = plural_entry ''CAKES'' 3 20
   \<and> get_smart_hybrid_guess (plural_entropy_view 3 2.75 2) (plural_rank_view 3 2.75 2) 21
         legacy_reborn (replicate 26 0) 21 3
       \<noteq> Some (plural_entropy_view 3 2.75 2 ! 0)"
proof -
  have "get_smart_hybrid_guess (plural_entropy_view 3 2.75 2) (plural_rank_view 3 2.75 2) 21
         legacy_reborn (replicate 26 0) 21 3
       = Some (plural_entry ''BAKES'' 2.75 90)"
    by (subst get_smart_hybrid_guess_fallback[OF _ _ _ plural_views_fail])
       (simp_all add: plural_views_length plural_views_heads legacy_reborn_def plural_entry_def
          double_sub_quarter)
  then show ?thesis
    using plural_views_fail plural_views_valid double_sub_quarter
    by (simp add: plural_views_heads plural_entry_def)
qed

text \<open>
  Claim C2, amended. \<open>get_smart_hybrid_guess\<close> returns no entry exactly if the pool size is 0.
  For a positive pool size within the two views it returns an entry that is among the first
  \<open>pool_count\<close> entries of one of the views. If no such entry of either view passes the filters
  of the main loop, the result is the first element of the entropy-sorted view, unless the rank
  tie-break is active (positive tolerance, more than 20 valid answers) and the entropy of that
  element minus the entropy of the first element of the rank-sorted view, computed in double
  arithmetic, is less than the tolerance; then the result is the first element of the
  rank-sorted view.
\<close>

theorem smart_hybrid_guess_returns_entry:
  assumes "nat pool_count \<le> length es" and "nat pool_count \<le> length rs"
  shows "((get_smart_hybrid_guess es rs pool_count config mrc valid_count turn = None) = (pool_count = 0))
       \<and> (0 < pool_count \<longrightarrow>
            (\<exists>e. get_smart_hybrid_guess es rs pool_count config mrc valid_count turn = Some e
                 \<and> (e \<in> set (take (nat pool_count) es) \<or> e \<in> set (take (nat pool_count) rs))))
       \<and> (0 < pool_count
            \<and> no_candidate_passes config mrc valid_count turn es pool_count
            \<and> no_candidate_passes config mrc valid_count turn rs pool_count \<longrightarrow>
            get_smart_hybrid_guess es rs pool_count config mrc valid_count turn =
              Some (if rank_priority_tolerance config > 0 \<and> valid_count > 20
                       \<and> double_sub (entropy (es ! 0)) (entropy (rs ! 0))
                           < rank_priority_tolerance config
                    then rs ! 0 else es ! 0))"
  using get_smart_hybrid_guess_none_iff[of es rs pool_count config mrc valid_count turn]
    get_smart_hybrid_guess_from_views[OF _ assms, of config mrc valid_count turn]
    get_smart_hybrid_guess_fallback[OF _ assms, of config mrc valid_count turn]
  by blast

lemma plural_views_fail_linguist:
  "no_candidate_passes entropy_linguist (replicate 26 0) 21 3 (plural_entropy_view 3 2.75 2) 21"
  "no_candidate_passes entropy_linguist (replicate 26 0) 21 3 (plural_rank_view 3 2.75 2) 21"
  by code_simp+

lemma plural_views_fail_close:
  "no_candidate_passes legacy_reborn (replicate 26 0) 21 3 (plural_entropy_view (1 / 2) (1 / 2 ^ 60) 0) 21"
  "no_candidate_passes legacy_reborn (replicate 26 0) 21 3 (plural_rank_view (1 / 2) (1 / 2 ^ 60) 0) 21"
  by code_simp+

theorem smart_hybrid_guess_returns_entry_witness:
  "nat 21 \<le> length (plural_entropy_view 3 2.75 2) \<and> nat 21 \<le> length (plural_rank_view 3 2.75 2)
   \<and> (0::int) < 21
   \<and> no_candidate_passes entropy_linguist (replicate 26 0) 21 3 (plural_entropy_view 3 2.75 2) 21
   \<and> no_candidate_passes entropy_linguist (replicate 26 0) 21 3 (plural_rank_view 3 2.75 2) 21
   \<and> get_smart_hybrid_guess (plural_entropy_view 3 2.75 2) (plural_rank_view 3 2.75 2) 21
         entropy_linguist (replicate 26 0) 21 3
       = Some (plural_entry ''CAKES'' 3 20)
   \<and> nat 21 \<le> length (plural_entropy_view (1 / 2) (1 / 2 ^ 60) 0)
   \<and> nat 21 \<le> length (plural_rank_view (1 / 2) (1 / 2 ^ 60) 0)
   \<and> no_candidate_passes legacy_reborn (replicate 26 0) 21 3
         (plural_entropy_view (1 / 2) (1 / 2 ^ 60) 0) 21
   \<and> no_candidate_passes legacy_reborn (replicate 26 0) 21 3
         (plural_rank_view (1 / 2) (1 / 2 ^ 60) 0) 21
   \<and> (1 / 2 - 1 / 2 ^ 60 :: real) < rank_priority_tolerance legacy_reborn
   \<and> double_sub (1 / 2) (1 / 2 ^ 60) = rank_priority_tolerance legacy_reborn
   \<and> get_smart_hybrid_guess (plural_entropy_view (1 / 2) (1 / 2 ^ 60) 0)
         (plural_rank_view (1 / 2) (1 / 2 ^ 60) 0) 21 legacy_reborn (replicate 26 0) 21 3
       = Some (plural_entry ''CAKES'' (1 / 2) 20)"
proof -
  let ?es = "plural_entropy_view 3 2.75 2" and ?rs = "plural_rank_view 3 2.75 2"
  let ?ec = "plural_entropy_view (1 / 2) (1 / 2 ^ 60) 0"
  let ?rc = "plural_rank_view (1 / 2) (1 / 2 ^ 60) 0"
  have l: "nat 21 \<le> length ?es" "nat 21 \<le> length ?rs"
    by (simp_all add: plural_views_length)
  have lc: "nat 21 \<le> length ?ec" "nat 21 \<le> length ?rc"
    by (simp_all add: plural_views_length)
  have p: "(0::int) < 21" by simp
  have t: "(1 / 2 - 1 / 2 ^ 60 :: real) < rank_priority_tolerance legacy_reborn"
    "double_sub (1 / 2) (1 / 2 ^ 60) = rank_priority_tolerance legacy_reborn"
    by (simp_all add: legacy_reborn_def double_sub_close)
  from smart_hybrid_guess_returns_entry[OF l, of entropy_linguist "replicate 26 0" 21 3]
    p plural_views_fail_linguist
  have "get_smart_hybrid_guess ?es ?rs 21 entropy_linguist (replicate 26 0) 21 3
       = Some (if rank_priority_tolerance entropy_linguist > 0 \<and> (21::int) > 20
                       \<and> double_sub (entropy (?es ! 0)) (entropy (?rs ! 0))
                           < rank_priority_tolerance entropy_linguist
                    then ?rs ! 0 else ?es ! 0)"
    by blast
  then have a: "get_smart_hybrid_guess ?es ?rs 21 entropy_linguist (replicate 26 0) 21 3
       = Some (plural_entry ''CAKES'' 3 20)"
    by (simp add: entropy_linguist_def plural_views_heads)
  from smart_hybrid_guess_returns_entry[OF lc, of legacy_reborn "replicate 26 0" 21 3]
    p plural_views_fail_close
  have "get_smart_hybrid_guess ?ec ?rc 21 legacy_reborn (replicate 26 0) 21 3
       = Some (if rank_priority_tolerance legacy_reborn > 0 \<and> (21::int) > 20
                       \<and> double_sub (entropy (?ec ! 0)) (entropy (?rc ! 0))
                           < rank_priority_tolerance legacy_reborn
                    then ?rc ! 0 else ?ec ! 0)"
    by blast
  then have b: "get_smart_hybrid_guess ?ec ?rc 21 legacy_reborn (replicate 26 0) 21 3
       = Some (plural_entry ''CAKES'' (1 / 2) 20)"
    by (simp add: plural_views_heads plural_entry_def double_sub_close legacy_reborn_def)
  from l lc p plural_views_fail_linguist plural_views_fail_close t a b show ?thesis by blast
qed

lemma main_loop_pass_panic:
  "vc \<le> 20 \<Longrightarrow> main_loop_pass cfg mrc vc turn = risk_filter_pass cfg mrc vc"
  by (intro ext) (auto simp: main_loop_pass_def risk_filter_pass_def Let_def)

lemma entropy_scan_snoc: "entropy_scan (xs @ [c]) = best_entropy_step c (entropy_scan xs)"
  by (simp add: entropy_scan_def)

lemma main_loop_panic_fold:
  assumes panic: "vc \<le> 20" and n: "nat n \<le> length es"
  shows "m \<le> nat n \<Longrightarrow>
         fold (main_loop_step es rs cfg mrc vc turn n) [0..<m] (- 1000, None, 0) =
           (fst (entropy_scan (filter (risk_filter_pass cfg mrc vc) (take m es))),
            snd (entropy_scan (filter (risk_filter_pass cfg mrc vc) (take m es))),
            int (length (filter (risk_filter_pass cfg mrc vc) (take m es))))"
proof (induction m)
  case 0
  show ?case by (simp add: entropy_scan_def)
next
  case (Suc m)
  let ?P = "\<lambda>k. filter (risk_filter_pass cfg mrc vc) (take k es)"
  from Suc n have m: "m < nat n" "m < length es" by simp_all
  from Suc have IH: "fold (main_loop_step es rs cfg mrc vc turn n) [0..<m] (- 1000, None, 0) =
           (fst (entropy_scan (?P m)), snd (entropy_scan (?P m)), int (length (?P m)))"
    by simp
  have "length (?P m) \<le> m" using m(2) by (metis length_filter_le length_take min.absorb2 less_imp_le)
  with m(1) have ev: "\<not> int (length (?P m)) \<ge> n" by linarith
  have tk: "take (Suc m) es = take m es @ [es ! m]"
    using m(2) by (rule take_Suc_conv_app_nth)
  show ?case
  proof (cases "risk_filter_pass cfg mrc vc (es ! m)")
    case True
    then have P: "?P (Suc m) = ?P m @ [es ! m]" by (simp add: tk)
    show ?thesis
      unfolding fold_upt_Suc IH P entropy_scan_snoc
      using True ev panic
      by (cases "entropy_scan (?P m)")
         (simp add: main_loop_step_def main_loop_pass_panic Let_def best_entropy_step_def)
  next
    case False
    then have P: "?P (Suc m) = ?P m" by (simp add: tk)
    show ?thesis
      unfolding fold_upt_Suc IH P
      using False ev panic
      by (simp add: main_loop_step_def main_loop_pass_panic Let_def)
  qed
qed

lemma main_loop_panic:
  assumes "vc \<le> 20" and "nat n \<le> length es"
  shows "main_loop es rs n cfg mrc vc turn =
           (case snd (entropy_scan (panic_candidates cfg mrc vc es n)) of
              None \<Rightarrow> es ! 0 | Some cand \<Rightarrow> cand)"
proof -
  have mx: "(if look_ahead_depth cfg > 0 \<and> \<not> vc \<le> 20 then PRUNE_COUNT else n) = n"
    using assms(1) by simp
  show ?thesis
    unfolding main_loop_def Let_def mx main_loop_panic_fold[OF assms order_refl] panic_candidates_def
    by simp
qed

lemma first_max_entropy_new:
  assumes "\<forall>j<length xs. entropy (xs ! j) < entropy c"
  shows "first_max_entropy c (xs @ [c])"
  unfolding first_max_entropy_def
  using assms by (intro exI[of _ "length xs"]) (auto simp: nth_append less_Suc_eq)

lemma first_max_entropy_keep:
  assumes "first_max_entropy c xs" and "entropy x \<le> entropy c"
  shows "first_max_entropy c (xs @ [x])"
proof -
  from assms(1) obtain k where k: "k < length xs" "xs ! k = c"
    "\<forall>j<length xs. entropy (xs ! j) \<le> entropy c" "\<forall>j<k. entropy (xs ! j) < entropy c"
    unfolding first_max_entropy_def by blast
  show ?thesis
    unfolding first_max_entropy_def
    using k assms(2) by (intro exI[of _ k]) (auto simp: nth_append less_Suc_eq)
qed

lemma first_max_entropy_le:
  "first_max_entropy c xs \<Longrightarrow> j < length xs \<Longrightarrow> entropy (xs ! j) \<le> entropy c"
  unfolding first_max_entropy_def by blast

lemma scan_inv_entropy_scan: "scan_inv xs (entropy_scan xs)"
proof (induction xs rule: rev_induct)
  case Nil
  show ?case by (simp add: scan_inv_def entropy_scan_def)
next
  case (snoc x xs)
  obtain b bc where st: "entropy_scan xs = (b, bc)" by (cases "entropy_scan xs")
  show ?case
  proof (cases bc)
    case None
    with snoc st have b: "b = - 1000" and all: "\<forall>j<length xs. entropy (xs ! j) \<le> - 1000"
      by (simp_all add: scan_inv_def)
    show ?thesis
    proof (cases "entropy x > b")
      case True
      with all b have "\<forall>j<length xs. entropy (xs ! j) < entropy x" by fastforce
      then have "first_max_entropy x (xs @ [x])" by (rule first_max_entropy_new)
      with True b show ?thesis
        by (simp add: entropy_scan_snoc st best_entropy_step_def scan_inv_def)
    next
      case False
      with all b None show ?thesis
        by (auto simp: entropy_scan_snoc st best_entropy_step_def scan_inv_def nth_append less_Suc_eq)
    qed
  next
    case (Some c)
    with snoc st have b: "b = entropy c" and gt: "- 1000 < entropy c" and fm: "first_max_entropy c xs"
      by (simp_all add: scan_inv_def)
    show ?thesis
    proof (cases "entropy x > b")
      case True
      with b first_max_entropy_le[OF fm] have "\<forall>j<length xs. entropy (xs ! j) < entropy x" by fastforce
      then have "first_max_entropy x (xs @ [x])" by (rule first_max_entropy_new)
      with True b gt show ?thesis
        by (simp add: entropy_scan_snoc st best_entropy_step_def scan_inv_def)
    next
      case False
      with b have "entropy x \<le> entropy c" by simp
      with fm have "first_max_entropy c (xs @ [x])" by (rule first_max_entropy_keep)
      with False b gt Some show ?thesis
        by (simp add: entropy_scan_snoc st best_entropy_step_def scan_inv_def)
    qed
  qed
qed

lemma entropy_scan_some:
  assumes "\<exists>c\<in>set xs. - 1000 < entropy c"
  shows "\<exists>c. snd (entropy_scan xs) = Some c \<and> first_max_entropy c xs"
proof -
  obtain b bc where st: "entropy_scan xs = (b, bc)" by (cases "entropy_scan xs")
  from assms obtain i where i: "i < length xs" "- 1000 < entropy (xs ! i)"
    by (auto simp: in_set_conv_nth)
  show ?thesis
  proof (cases bc)
    case None
    with scan_inv_entropy_scan[of xs] st have "\<forall>j<length xs. entropy (xs ! j) \<le> - 1000"
      by (simp add: scan_inv_def)
    with i have False by fastforce
    then show ?thesis ..
  next
    case (Some c)
    with scan_inv_entropy_scan[of xs] st show ?thesis
      by (simp add: scan_inv_def)
  qed
qed

lemma entropy_scan_none:
  assumes "\<forall>c\<in>set xs. entropy c \<le> - 1000"
  shows "snd (entropy_scan xs) = None"
proof -
  obtain b bc where st: "entropy_scan xs = (b, bc)" by (cases "entropy_scan xs")
  show ?thesis
  proof (cases bc)
    case None
    with st show ?thesis by simp
  next
    case (Some c)
    with scan_inv_entropy_scan[of xs] st have gt: "- 1000 < entropy c" and "first_max_entropy c xs"
      by (simp_all add: scan_inv_def)
    then obtain k where "k < length xs" "xs ! k = c"
      unfolding first_max_entropy_def by blast
    then have "c \<in> set xs" by (auto simp: in_set_conv_nth)
    with assms gt have False by fastforce
    then show ?thesis ..
  qed
qed

lemma burner_risky: "is_risky_guess burner (replicate 26 0)"
  by code_simp

lemma burner_rejected: "\<not> main_loop_pass legacy_reborn (replicate 26 0) 3 3 burner"
  by code_simp

lemma panic_view_candidates:
  "panic_candidates legacy_reborn (replicate 26 0) 3 panic_entropy_view 4
     = [mk_entry ''BRACE'' 0.9 False, mk_entry ''CRANE'' 0.9 False, mk_entry ''TRACE'' 0.9 False]"
  by code_simp

lemma panic_view_scan:
  "snd (entropy_scan [mk_entry ''BRACE'' 0.9 False, mk_entry ''CRANE'' 0.9 False, mk_entry ''TRACE'' 0.9 False])
     = Some (mk_entry ''BRACE'' 0.9 False)"
  by (simp add: entropy_scan_def best_entropy_step_def mk_entry_def)

lemma panic_views_valid:
  "valid_pool panic_entropy_view 4" "valid_pool panic_rank_view 4"
  by code_simp+

lemma panic_view_length: "nat 4 \<le> length panic_entropy_view"
  by (simp add: panic_entropy_view_def)

text \<open>
  Claim C1 fails as stated. With three valid answers (panic mode), the risk filter switched on
  and nothing known about the letters, the eliminated candidate SPEED, first in the entropy view
  with entropy 1.5, is rejected by the risk filter (two E), and the main loop chooses BRACE with
  entropy 0.9.
\<close>

theorem risk_filter_active_in_panic:
  "valid_pool panic_entropy_view 4 \<and> valid_pool panic_rank_view 4
   \<and> (3::int) \<le> 20 \<and> use_risk_filter legacy_reborn \<and> is_risky_guess burner (replicate 26 0)
   \<and> panic_entropy_view ! 0 = burner
   \<and> \<not> main_loop_pass legacy_reborn (replicate 26 0) 3 3 burner
   \<and> main_loop panic_entropy_view panic_rank_view 4 legacy_reborn (replicate 26 0) 3 3
       = mk_entry ''BRACE'' 0.9 False
   \<and> entropy (mk_entry ''BRACE'' 0.9 False) < entropy burner"
proof -
  have p: "(3::int) \<le> 20" by simp
  have "main_loop panic_entropy_view panic_rank_view 4 legacy_reborn (replicate 26 0) 3 3
       = mk_entry ''BRACE'' 0.9 False"
    unfolding main_loop_panic[OF p panic_view_length] panic_view_candidates panic_view_scan
    by simp
  with burner_risky burner_rejected panic_views_valid show ?thesis
    by (simp add: legacy_reborn_def panic_entropy_view_def burner_def mk_entry_def)
qed

text \<open>
  Claim C1, amended. With \<open>valid_count \<le> 20\<close>, a candidate passes the main loop exactly if it
  is an endgame solver (non-eliminated, at most 10 valid answers) or the risk filter is off or
  does not reject it: the linguistic filter plays no part. All \<open>pool_count\<close> candidates are
  examined and scored by their entropy alone: the choice is the first candidate of greatest
  entropy among those that pass (if one has entropy above the initial score \<open>-1000\<close>), else the
  first element of the entropy view. The choice does not depend on the linguistic-filter
  settings, the look-ahead depth or the rank-sorted view.
\<close>

theorem endgame_panic_main_loop:
  assumes "valid_count \<le> 20" and "nat pool_count \<le> length es"
  shows "main_loop_pass config mrc valid_count turn cand = risk_filter_pass config mrc valid_count cand
       \<and> ((\<exists>c\<in>set (panic_candidates config mrc valid_count es pool_count). - 1000 < entropy c) \<longrightarrow>
            first_max_entropy (main_loop es rs pool_count config mrc valid_count turn)
              (panic_candidates config mrc valid_count es pool_count))
       \<and> ((\<forall>c\<in>set (panic_candidates config mrc valid_count es pool_count). entropy c \<le> - 1000) \<longrightarrow>
            main_loop es rs pool_count config mrc valid_count turn = es ! 0)
       \<and> main_loop es rs pool_count config mrc valid_count turn
           = main_loop es rs' pool_count
               (config\<lparr>use_linguistic_filter := ling, linguistic_filter_start_turn := start,
                         look_ahead_depth := depth\<rparr>) mrc valid_count turn"
proof (intro conjI impI)
  show "main_loop_pass config mrc valid_count turn cand = risk_filter_pass config mrc valid_count cand"
    by (simp only: main_loop_pass_panic[OF assms(1)])
next
  assume "\<exists>c\<in>set (panic_candidates config mrc valid_count es pool_count). - 1000 < entropy c"
  from entropy_scan_some[OF this]
  show "first_max_entropy (main_loop es rs pool_count config mrc valid_count turn)
          (panic_candidates config mrc valid_count es pool_count)"
    unfolding main_loop_panic[OF assms] by auto
next
  assume "\<forall>c\<in>set (panic_candidates config mrc valid_count es pool_count). entropy c \<le> - 1000"
  from entropy_scan_none[OF this]
  show "main_loop es rs pool_count config mrc valid_count turn = es ! 0"
    unfolding main_loop_panic[OF assms] by simp
next
  have "risk_filter_pass (config\<lparr>use_linguistic_filter := ling, linguistic_filter_start_turn := start,
                         look_ahead_depth := depth\<rparr>) mrc valid_count = risk_filter_pass config mrc valid_count"
    by (intro ext) (simp add: risk_filter_pass_def)
  then show "main_loop es rs pool_count config mrc valid_count turn
           = main_loop es rs' pool_count
               (config\<lparr>use_linguistic_filter := ling, linguistic_filter_start_turn := start,
                         look_ahead_depth := depth\<rparr>) mrc valid_count turn"
    unfolding main_loop_panic[OF assms] panic_candidates_def by simp
qed

lemma double_letter_candidates:
  "panic_candidates legacy_reborn (replicate 26 0) 15 double_letter_view 15 = []"
  by code_simp

lemma double_letter_length: "nat 15 \<le> length double_letter_view"
  by (simp add: double_letter_view_def)

theorem endgame_panic_main_loop_witness:
  "(3::int) \<le> 20 \<and> nat 4 \<le> length panic_entropy_view
   \<and> (\<exists>c\<in>set (panic_candidates legacy_reborn (replicate 26 0) 3 panic_entropy_view 4). - 1000 < entropy c)
   \<and> first_max_entropy (main_loop panic_entropy_view panic_rank_view 4 legacy_reborn (replicate 26 0) 3 3)
        [mk_entry ''BRACE'' 0.9 False, mk_entry ''CRANE'' 0.9 False, mk_entry ''TRACE'' 0.9 False]
   \<and> (15::int) \<le> 20 \<and> nat 15 \<le> length double_letter_view
   \<and> panic_candidates legacy_reborn (replicate 26 0) 15 double_letter_view 15 = []
   \<and> main_loop double_letter_view double_letter_view 15 legacy_reborn (replicate 26 0) 15 4
       = double_letter_view ! 0"
proof -
  have p3: "(3::int) \<le> 20" and p15: "(15::int) \<le> 20" by simp_all
  have ex: "\<exists>c\<in>set (panic_candidates legacy_reborn (replicate 26 0) 3 panic_entropy_view 4). - 1000 < entropy c"
    by (simp add: panic_view_candidates mk_entry_def)
  have all: "\<forall>c\<in>set (panic_candidates legacy_reborn (replicate 26 0) 15 double_letter_view 15). entropy c \<le> - 1000"
    by (simp add: double_letter_candidates)
  from endgame_panic_main_loop[OF p3 panic_view_length, of legacy_reborn "replicate 26 0" 3] ex
  have 1: "first_max_entropy (main_loop panic_entropy_view panic_rank_view 4 legacy_reborn (replicate 26 0) 3 3)
        (panic_candidates legacy_reborn (replicate 26 0) 3 panic_entropy_view 4)"
    by blast
  from endgame_panic_main_loop[OF p15 double_letter_length, of legacy_reborn "replicate 26 0" 4] all
  have 2: "main_loop double_letter_view double_letter_view 15 legacy_reborn (replicate 26 0) 15 4
       = double_letter_view ! 0"
    by blast
  from p3 p15 panic_view_length double_letter_length ex double_letter_candidates 1 2 show ?thesis
    unfolding panic_view_candidates by blast
qed

end
